theory Spec2Isabelle
  imports Complex_Main "HOL-Library.Log_Nat"
begin

section \<open>JavaScript numbers\<close>

text \<open>
  The values that \<open>render\<close> computes are JavaScript numbers, binary64 floating point. A
  finite number is modelled by the rational it denotes, and every arithmetic operation
  rounds its exact result to binary64 (\<open>rnd64\<close> below). The two infinities and NaN are
  kept, because \<open>render\<close> divides by the surface height and by the image ratio without a
  guard. Every zero that \<open>render\<close> divides by comes from non-negative integers, so it is
  the positive zero, and a non-zero number over it is an infinity with the sign of the
  numerator.
\<close>

datatype jsnum = Fin rat | PInf | NInf | NaN

text \<open>
  Rounding to binary64: to the nearest number with a 53-bit significand, a tie going to
  the even significand. \<open>ilog2 x\<close> is the binary exponent of a positive \<open>x\<close>, the \<open>e\<close> with
  \<open>2^e \<le> x < 2^(e+1)\<close>; \<open>quantum x\<close> is the spacing of the binary64 numbers around \<open>x\<close>
  (constant below \<open>2^-1022\<close>, where underflow is gradual); a result of magnitude \<open>2^1024\<close>
  or more is an infinity. An integer is kept as it is: every integer up to \<open>2^53\<close> in
  magnitude is a binary64 number, and the sizes that \<open>render\<close> reads are 32-bit integers.
\<close>

definition ilog2 :: "rat \<Rightarrow> int" where
  "ilog2 x = (if 1 \<le> x then bitlen \<lfloor>x\<rfloor> - 1 else - bitlen (\<lceil>1 / x\<rceil> - 1))"

definition round_even :: "rat \<Rightarrow> int" where
  "round_even m =
     (let n = \<lfloor>m\<rfloor>; f = m - of_int n
      in if f < 1 / 2 then n else if 1 / 2 < f then n + 1 else if even n then n else n + 1)"

definition quantum :: "rat \<Rightarrow> rat" where
  "quantum x = 2 powi (max (ilog2 \<bar>x\<bar>) (- 1022) - 52)"

definition rnd64 :: "rat \<Rightarrow> jsnum" where
  "rnd64 x =
     (if x = of_int \<lfloor>x\<rfloor> then Fin x
      else let y = of_int (round_even (x / quantum x)) * quantum x
           in if 2 ^ 1024 \<le> \<bar>y\<bar> then (if 0 < x then PInf else NInf) else Fin y)"

text \<open>The number that the decimal literal \<open>n / d\<close> denotes.\<close>

definition decimal :: "int \<Rightarrow> int \<Rightarrow> jsnum" where
  "decimal n d = rnd64 (of_int n / of_int d)"

text \<open>\<open>a / b\<close>\<close>

fun jdiv :: "jsnum \<Rightarrow> jsnum \<Rightarrow> jsnum" where
  "jdiv (Fin a) (Fin b) =
     (if b = 0 then (if a = 0 then NaN else if 0 < a then PInf else NInf)
      else rnd64 (a / b))"
| "jdiv (Fin a) PInf = Fin 0"
| "jdiv (Fin a) NInf = Fin 0"
| "jdiv PInf (Fin b) = (if 0 \<le> b then PInf else NInf)"
| "jdiv NInf (Fin b) = (if 0 \<le> b then NInf else PInf)"
| "jdiv PInf PInf = NaN"
| "jdiv PInf NInf = NaN"
| "jdiv NInf PInf = NaN"
| "jdiv NInf NInf = NaN"
| "jdiv NaN b = NaN"
| "jdiv a NaN = NaN"

text \<open>\<open>a * b\<close>\<close>

fun jmul :: "jsnum \<Rightarrow> jsnum \<Rightarrow> jsnum" where
  "jmul (Fin a) (Fin b) = rnd64 (a * b)"
| "jmul (Fin a) PInf = (if a = 0 then NaN else if 0 < a then PInf else NInf)"
| "jmul (Fin a) NInf = (if a = 0 then NaN else if 0 < a then NInf else PInf)"
| "jmul PInf (Fin b) = (if b = 0 then NaN else if 0 < b then PInf else NInf)"
| "jmul NInf (Fin b) = (if b = 0 then NaN else if 0 < b then NInf else PInf)"
| "jmul PInf PInf = PInf"
| "jmul PInf NInf = NInf"
| "jmul NInf PInf = NInf"
| "jmul NInf NInf = PInf"
| "jmul NaN b = NaN"
| "jmul a NaN = NaN"

text \<open>\<open>a - b\<close>\<close>

fun jsub :: "jsnum \<Rightarrow> jsnum \<Rightarrow> jsnum" where
  "jsub (Fin a) (Fin b) = rnd64 (a - b)"
| "jsub (Fin a) PInf = NInf"
| "jsub (Fin a) NInf = PInf"
| "jsub PInf (Fin b) = PInf"
| "jsub NInf (Fin b) = NInf"
| "jsub PInf PInf = NaN"
| "jsub PInf NInf = PInf"
| "jsub NInf PInf = NInf"
| "jsub NInf NInf = NaN"
| "jsub NaN b = NaN"
| "jsub a NaN = NaN"

text \<open>\<open>a > b\<close>: false as soon as one side is NaN.\<close>

fun jgt :: "jsnum \<Rightarrow> jsnum \<Rightarrow> bool" where
  "jgt (Fin a) (Fin b) = (b < a)"
| "jgt (Fin a) PInf = False"
| "jgt (Fin a) NInf = True"
| "jgt PInf (Fin b) = True"
| "jgt NInf (Fin b) = False"
| "jgt PInf PInf = False"
| "jgt PInf NInf = True"
| "jgt NInf PInf = False"
| "jgt NInf NInf = False"
| "jgt NaN b = False"
| "jgt a NaN = False"

text \<open>\<open>Math.round\<close> rounds to the nearest integer, a tie going up; \<open>Math.floor\<close>
  rounds down. Both are exact, and return an infinity or NaN unchanged.\<close>

fun jround :: "jsnum \<Rightarrow> jsnum" where
  "jround (Fin a) = Fin (of_int \<lfloor>a + 1 / 2\<rfloor>)"
| "jround x = x"

fun jfloor :: "jsnum \<Rightarrow> jsnum" where
  "jfloor (Fin a) = Fin (of_int \<lfloor>a\<rfloor>)"
| "jfloor x = x"

text \<open>A numeric operator reads \<open>undefined\<close> as NaN.\<close>

fun to_number :: "jsnum option \<Rightarrow> jsnum" where
  "to_number None = NaN"
| "to_number (Some x) = x"

section \<open>The controller's state\<close>

text \<open>
  \<open>pxFactorValues = [.02, 0.04, 0.06, 0.09, 1.0]\<close>, and reading an array past its end
  gives \<open>undefined\<close>.
\<close>

definition pxFactorValues :: "jsnum list" where
  "pxFactorValues = [decimal 2 100, decimal 4 100, decimal 6 100, decimal 9 100, Fin 1]"

definition factor_at :: "nat \<Rightarrow> jsnum option" where
  "factor_at i = (if i < length pxFactorValues then Some (pxFactorValues ! i) else None)"

text \<open>What one call of \<open>render\<close> computes and hands to the two \<open>drawImage\<close> calls.\<close>

record draw =
  d_index :: nat
  d_ratio :: "jsnum option"
  d_w :: nat
  d_h :: nat
  scaledW :: jsnum
  scaledH :: jsnum
  newX :: jsnum
  newY :: jsnum
  newWidth :: jsnum
  newHeight :: jsnum

datatype callback = ResizeCb | StepCb

record timer =
  tid :: nat
  due :: nat
  cb :: callback

datatype binding = ResizeListener | EnterTrigger | ParallaxTimeline | BottomTrigger

datatype img_status = Pending | Loaded | Failed

datatype action = Rendered draw | Armed timer | Cancelled nat

text \<open>
  The fields of \<open>Content\<close> that the methods read and write, and the part of the host they
  act on: the layout box of \<open>canvasWrap\<close>, the timer table of \<open>setTimeout\<close> with a clock,
  the listeners and scroll triggers registered so far, and whether each single-shot
  trigger has fired. \<open>trace\<close> records, in order, every \<open>render\<close> and every timer armed or
  cancelled.
\<close>

record state =
  dom_inner :: "nat option"
  imgRatio :: "jsnum option"
  pxIndex :: nat
  canvasW :: nat
  canvasH :: nat
  wrapW :: nat
  wrapH :: nat
  wrapShown :: bool
  smoothing :: bool
  status :: img_status
  bindings :: "binding list"
  enterFired :: bool
  bottomFired :: bool
  resizeTimeout :: "nat option"
  timers :: "timer list"
  nextId :: nat
  clock :: nat
  trace :: "action list"

section \<open>The methods\<close>

text \<open>The locals of \<open>render\<close>, for a surface \<open>w\<close> by \<open>h\<close>, the field \<open>imgRatio\<close> and \<open>pxIndex\<close>.\<close>

definition render_draw :: "nat \<Rightarrow> nat \<Rightarrow> jsnum option \<Rightarrow> nat \<Rightarrow> draw" where
  "render_draw w h ratio i =
     (let scale = to_number (factor_at i);
          sw = jfloor (jmul (Fin (of_nat w)) scale);
          sh = jfloor (jmul (Fin (of_nat h)) scale)
      in if jgt (jdiv (Fin (of_nat w)) (Fin (of_nat h))) (to_number ratio)
         then \<lparr>d_index = i, d_ratio = ratio, d_w = w, d_h = h, scaledW = sw, scaledH = sh,
               newX = Fin 0, newY = Fin 0, newWidth = Fin (of_nat w),
               newHeight = jround (jdiv (Fin (of_nat w)) (to_number ratio))\<rparr>
         else let nw = jround (jmul (Fin (of_nat h)) (to_number ratio))
              in \<lparr>d_index = i, d_ratio = ratio, d_w = w, d_h = h, scaledW = sw, scaledH = sh,
                   newX = jdiv (jsub (Fin (of_nat w)) nw) (Fin 2), newY = Fin 0,
                   newWidth = nw, newHeight = Fin (of_nat h)\<rparr>)"

definition render :: "state \<Rightarrow> state" where
  "render s =
     s\<lparr>smoothing := False,
       trace := trace s @ [Rendered (render_draw (canvasW s) (canvasH s) (imgRatio s) (pxIndex s))]\<rparr>"

definition setCanvasSize :: "state \<Rightarrow> state" where
  "setCanvasSize s = s\<lparr>canvasW := wrapW s, canvasH := wrapH s\<rparr>"

text \<open>\<open>setTimeout(f, d)\<close> returns the new timer's id; \<open>clearTimeout\<close> of \<open>undefined\<close> or of
  an id that is not pending does nothing.\<close>

definition setTimeout :: "callback \<Rightarrow> nat \<Rightarrow> state \<Rightarrow> nat \<times> state" where
  "setTimeout f d s =
     (let t = \<lparr>tid = nextId s, due = clock s + d, cb = f\<rparr>
      in (nextId s, s\<lparr>timers := timers s @ [t], nextId := nextId s + 1,
                      trace := trace s @ [Armed t]\<rparr>))"

definition clearTimeout :: "nat option \<Rightarrow> state \<Rightarrow> state" where
  "clearTimeout h s =
     (case h of
        None \<Rightarrow> s
      | Some i \<Rightarrow>
          if i \<in> tid ` set (timers s)
          then s\<lparr>timers := filter (\<lambda>t. tid t \<noteq> i) (timers s), trace := trace s @ [Cancelled i]\<rparr>
          else s)"

definition animatePixels :: "state \<Rightarrow> state" where
  "animatePixels s =
     (if pxIndex s < length pxFactorValues
      then snd (setTimeout StepCb 100 (render s))
      else s)"

text \<open>The callback of the timer that \<open>animatePixels\<close> arms.\<close>

definition step_timer :: "state \<Rightarrow> state" where
  "step_timer s = animatePixels (s\<lparr>pxIndex := pxIndex s + 1\<rparr>)"

text \<open>The \<open>resize\<close> listener, and the callback of the timer it arms.\<close>

definition on_resize :: "state \<Rightarrow> state" where
  "on_resize s =
     (let s1 = clearTimeout (resizeTimeout s) s;
          (i, s2) = setTimeout ResizeCb 100 s1
      in s2\<lparr>resizeTimeout := Some i\<rparr>)"

definition resize_timer :: "state \<Rightarrow> state" where
  "resize_timer s =
     render ((setCanvasSize s)\<lparr>pxIndex := length pxFactorValues - 1\<rparr>)"

text \<open>The \<open>onEnter\<close> callbacks of the two scroll triggers.\<close>

definition on_enter :: "state \<Rightarrow> state" where
  "on_enter s = animatePixels (s\<lparr>pxIndex := 0\<rparr>)"

definition on_enter_bottom :: "state \<Rightarrow> state" where
  "on_enter_bottom s = s\<lparr>wrapShown := True\<rparr>"

definition initEvents :: "state \<Rightarrow> state" where
  "initEvents s =
     (let s1 = s\<lparr>bindings := bindings s @ [ResizeListener]\<rparr>;
          s2 = s1\<lparr>bindings := bindings s1 @ [EnterTrigger]\<rparr>;
          s3 = (if dom_inner s2 \<noteq> None
                then s2\<lparr>bindings := bindings s2 @ [ParallaxTimeline]\<rparr> else s2)
      in s3\<lparr>bindings := bindings s3 @ [BottomTrigger]\<rparr>)"

text \<open>\<open>img.onload\<close>, for an image of intrinsic size \<open>iw\<close> by \<open>ih\<close>.\<close>

definition onload :: "nat \<Rightarrow> nat \<Rightarrow> state \<Rightarrow> state" where
  "onload iw ih s =
     initEvents (render (setCanvasSize
       (s\<lparr>imgRatio := Some (jdiv (Fin (of_nat iw)) (Fin (of_nat ih))), status := Loaded\<rparr>)))"

text \<open>
  The state the constructor leaves, for a container whose box is \<open>cw\<close> by \<open>ch\<close>: the class
  fields at their initialisers (\<open>DOM.inner\<close> null, \<open>imgRatio\<close> undefined, \<open>pxIndex\<close> 0), a
  fresh canvas at the size a new canvas element has (300 by 150) with smoothing on, the
  image requested and no listener, trigger or timer yet.
\<close>

definition constructor :: "nat \<Rightarrow> nat \<Rightarrow> state" where
  "constructor cw ch =
     \<lparr>dom_inner = None, imgRatio = None, pxIndex = 0, canvasW = 300, canvasH = 150,
      wrapW = cw, wrapH = ch, wrapShown = False, smoothing = True, status = Pending,
      bindings = [], enterFired = False, bottomFired = False, resizeTimeout = None,
      timers = [], nextId = 1, clock = 0, trace = []\<rparr>"

section \<open>The event loop\<close>

text \<open>
  What the host can deliver to one controller: the image loads or fails to, the window
  is resized, the container's box changes, the canvas top reaches the viewport top or
  bottom, time passes, a pending timer that is due fires. A single-shot scroll trigger
  (\<open>once: true\<close>) calls \<open>onEnter\<close> at most once. Timers may fire late and in any order.
  \<open>None\<close> says that the event cannot happen in this state.
\<close>

datatype event =
    Load nat nat
  | LoadError
  | WindowResize
  | Layout nat nat
  | ReachTop
  | ReachBottom
  | Elapse nat
  | Fire nat

text \<open>A timer that fires leaves the timer table, then its callback runs.\<close>

definition remove_timer :: "nat \<Rightarrow> state \<Rightarrow> state" where
  "remove_timer i s = s\<lparr>timers := filter (\<lambda>t. tid t \<noteq> i) (timers s)\<rparr>"

definition fire :: "nat \<Rightarrow> state \<Rightarrow> state option" where
  "fire i s =
     (case filter (\<lambda>t. tid t = i) (timers s) of
        [] \<Rightarrow> None
      | t # _ \<Rightarrow>
          if clock s < due t then None
          else Some (case cb t of
                       ResizeCb \<Rightarrow> resize_timer (remove_timer i s)
                     | StepCb \<Rightarrow> step_timer (remove_timer i s)))"

fun step :: "event \<Rightarrow> state \<Rightarrow> state option" where
  "step (Load iw ih) s = (if status s = Pending then Some (onload iw ih s) else None)"
| "step LoadError s = (if status s = Pending then Some (s\<lparr>status := Failed\<rparr>) else None)"
| "step WindowResize s = Some (if ResizeListener \<in> set (bindings s) then on_resize s else s)"
| "step (Layout cw ch) s = Some (s\<lparr>wrapW := cw, wrapH := ch\<rparr>)"
| "step ReachTop s =
     Some (if EnterTrigger \<in> set (bindings s) \<and> \<not> enterFired s
           then on_enter (s\<lparr>enterFired := True\<rparr>) else s)"
| "step ReachBottom s =
     Some (if BottomTrigger \<in> set (bindings s) \<and> \<not> bottomFired s
           then on_enter_bottom (s\<lparr>bottomFired := True\<rparr>) else s)"
| "step (Elapse n) s = Some (s\<lparr>clock := clock s + n\<rparr>)"
| "step (Fire i) s = fire i s"

fun run :: "event list \<Rightarrow> state \<Rightarrow> state option" where
  "run [] s = Some s"
| "run (e # es) s = (case step e s of None \<Rightarrow> None | Some s' \<Rightarrow> run es s')"

text \<open>The renders of a trace, and the pending timers of one kind.\<close>

fun renders :: "action list \<Rightarrow> draw list" where
  "renders [] = []"
| "renders (Rendered d # as) = d # renders as"
| "renders (a # as) = renders as"

text \<open>The timers a trace armed, and the ids of the pending timers it cancelled.\<close>

fun armed :: "action list \<Rightarrow> timer list" where
  "armed [] = []"
| "armed (Armed t # as) = t # armed as"
| "armed (a # as) = armed as"

fun cancelled :: "action list \<Rightarrow> nat list" where
  "cancelled [] = []"
| "cancelled (Cancelled i # as) = i # cancelled as"
| "cancelled (a # as) = cancelled as"

definition pending :: "callback \<Rightarrow> state \<Rightarrow> timer list" where
  "pending f s = filter (\<lambda>t. cb t = f) (timers s)"

section \<open>Invariants of the event loop\<close>

text \<open>
  What holds in every state the event loop reaches. Before the image has loaded nothing
  has been registered, armed or rendered; timer ids are fresh and distinct; a pending
  resize timer is the one \<open>resizeTimeout\<close> names; at most one step timer is pending, and
  only while \<open>pxIndex\<close> is a valid index; every render saw a decoded image and a valid
  index.
\<close>

definition inv_load :: "state \<Rightarrow> bool" where
  "inv_load s \<longleftrightarrow>
     dom_inner s = None \<and>
     (status s \<noteq> Loaded \<longrightarrow>
        bindings s = [] \<and> timers s = [] \<and> trace s = [] \<and> pxIndex s = 0 \<and>
        \<not> enterFired s \<and> imgRatio s = None) \<and>
     (status s = Loaded \<longrightarrow>
        imgRatio s \<noteq> None \<and> bindings s = [ResizeListener, EnterTrigger, BottomTrigger])"

definition inv_ids :: "state \<Rightarrow> bool" where
  "inv_ids s \<longleftrightarrow> (\<forall>t \<in> set (timers s). tid t < nextId s) \<and> distinct (map tid (timers s))"

definition rz_ok :: "nat option \<Rightarrow> nat \<Rightarrow> timer list \<Rightarrow> bool" where
  "rz_ok h n ts \<longleftrightarrow>
     (\<forall>t \<in> set ts. cb t = ResizeCb \<longrightarrow> h = Some (tid t)) \<and>
     (\<forall>t \<in> set ts. h = Some (tid t) \<longrightarrow> cb t = ResizeCb) \<and>
     (\<forall>j. h = Some j \<longrightarrow> j < n)"

definition inv_rz :: "state \<Rightarrow> bool" where
  "inv_rz s \<longleftrightarrow> rz_ok (resizeTimeout s) (nextId s) (timers s)"

definition one_step :: "timer list \<Rightarrow> bool" where
  "one_step ts \<longleftrightarrow>
     (\<forall>t \<in> set ts. \<forall>u \<in> set ts. cb t = StepCb \<and> cb u = StepCb \<longrightarrow> tid t = tid u)"

definition inv_seq :: "state \<Rightarrow> bool" where
  "inv_seq s \<longleftrightarrow>
     pxIndex s \<le> length pxFactorValues \<and>
     one_step (timers s) \<and>
     (\<forall>t \<in> set (timers s). cb t = StepCb \<longrightarrow>
        pxIndex s < length pxFactorValues \<and> enterFired s)"

definition inv_log :: "state \<Rightarrow> bool" where
  "inv_log s \<longleftrightarrow>
     (\<forall>d \<in> set (renders (trace s)). d_ratio d \<noteq> None \<and> d_index d < length pxFactorValues)"

definition inv :: "state \<Rightarrow> bool" where
  "inv s \<longleftrightarrow> inv_load s \<and> inv_ids s \<and> inv_rz s \<and> inv_seq s \<and> inv_log s"

text \<open>
  Every pending timer was armed, and every timer that was cancelled while pending had
  been armed as a resize timer.
\<close>

definition inv_cancel :: "state \<Rightarrow> bool" where
  "inv_cancel s \<longleftrightarrow>
     (\<forall>t \<in> set (timers s). t \<in> set (armed (trace s))) \<and>
     (\<forall>i \<in> set (cancelled (trace s)).
        \<exists>u \<in> set (armed (trace s)). tid u = i \<and> cb u = ResizeCb)"

text \<open>
  A step timer \<open>t\<close> that was pending when the resize timer fired: as long as it stays
  pending it is the only timer with its id, and \<open>pxIndex\<close> stays at the last index.
\<close>

definition stale :: "timer \<Rightarrow> state \<Rightarrow> bool" where
  "stale t s \<longleftrightarrow>
     tid t < nextId s \<and>
     (\<forall>u \<in> set (timers s). tid u = tid t \<longrightarrow> u = t \<and> pxIndex s = length pxFactorValues - 1)"

section \<open>Rounding to binary64\<close>

lemma bitlen_pos: "0 < n \<Longrightarrow> 1 \<le> bitlen n"
  using bitlen_bounds [of n] bitlen_nonneg [of n]
  by (cases "bitlen n = 0") auto

lemma ilog2_bounds_ge1:
  assumes "1 \<le> x"
  shows "2 powi (ilog2 x) \<le> x \<and> x < 2 powi (ilog2 x + 1)"
proof -
  define n where "n = \<lfloor>x\<rfloor>"
  have n: "1 \<le> n" "of_int n \<le> x" "x < of_int n + 1"
    using assms unfolding n_def by linarith+
  define b where "b = bitlen n"
  have b: "1 \<le> b"
    using bitlen_pos [of n] n(1) by (simp add: b_def)
  have bd: "2 ^ nat (b - 1) \<le> n" "n < 2 ^ nat b"
    using bitlen_bounds [of n] n(1) by (simp_all add: b_def)
  have "(2::rat) ^ nat (b - 1) = of_int (2 ^ nat (b - 1))"
    by simp
  also have "\<dots> \<le> of_int n"
    using bd(1) by (simp only: of_int_le_iff)
  finally have lo: "(2::rat) ^ nat (b - 1) \<le> x"
    using n(2) by linarith
  have "n + 1 \<le> 2 ^ nat b"
    using bd(2) by simp
  then have "(of_int (n + 1) :: rat) \<le> of_int (2 ^ nat b)"
    by (simp only: of_int_le_iff)
  then have hi: "x < (2::rat) ^ nat b"
    using n(3) by simp
  have "ilog2 x = b - 1"
    using assms by (simp add: ilog2_def b_def n_def)
  moreover have "(2::rat) powi (b - 1) = 2 ^ nat (b - 1)" "(2::rat) powi b = 2 ^ nat b"
    using b by (simp_all add: power_int_nonneg_exp)
  ultimately show ?thesis
    using lo hi by simp
qed

lemma ilog2_bounds_lt1:
  assumes "0 < x" and "x < 1"
  shows "2 powi (ilog2 x) \<le> x \<and> x < 2 powi (ilog2 x + 1)"
proof -
  define y where "y = 1 / x"
  have y: "1 < y" "0 < y" "x = 1 / y"
    using assms by (simp_all add: y_def)
  define m where "m = \<lceil>y\<rceil> - 1"
  have m: "1 \<le> m" "of_int m < y" "y \<le> of_int m + 1"
    using y(1) unfolding m_def by linarith+
  define j where "j = bitlen m"
  have j: "1 \<le> j"
    using bitlen_pos [of m] m(1) by (simp add: j_def)
  have bd: "2 ^ nat (j - 1) \<le> m" "m < 2 ^ nat j"
    using bitlen_bounds [of m] m(1) by (simp_all add: j_def)
  have "(2::rat) ^ nat (j - 1) = of_int (2 ^ nat (j - 1))"
    by simp
  also have "\<dots> \<le> of_int m"
    using bd(1) by (simp only: of_int_le_iff)
  finally have lo: "(2::rat) ^ nat (j - 1) < y"
    using m(2) by linarith
  have "m + 1 \<le> 2 ^ nat j"
    using bd(2) by simp
  then have "(of_int (m + 1) :: rat) \<le> of_int (2 ^ nat j)"
    by (simp only: of_int_le_iff)
  then have hi: "y \<le> (2::rat) ^ nat j"
    using m(3) by simp
  have e: "ilog2 x = - j"
    using assms by (simp add: ilog2_def j_def m_def y_def)
  have p1: "(2::rat) powi (- j) = 1 / 2 ^ nat j"
    using j by (simp add: power_int_minus_divide power_int_nonneg_exp)
  have "- j + 1 = - (j - 1)"
    by simp
  then have p2: "(2::rat) powi (- j + 1) = 1 / 2 ^ nat (j - 1)"
    using j by (simp only: power_int_minus_divide) (simp add: power_int_nonneg_exp)
  have "1 / (2::rat) ^ nat j \<le> 1 / y"
    using hi y(2) by (simp add: frac_le)
  moreover have "1 / y < 1 / (2::rat) ^ nat (j - 1)"
    using lo by (simp add: frac_less2)
  ultimately show ?thesis
    using e p1 p2 y(3) by simp
qed

lemma ilog2_bounds: "0 < x \<Longrightarrow> 2 powi (ilog2 x) \<le> x \<and> x < 2 powi (ilog2 x + 1)"
  using ilog2_bounds_ge1 [of x] ilog2_bounds_lt1 [of x] by (cases "1 \<le> x") auto

lemma ilog2_unique:
  assumes "0 < x" and "2 powi e \<le> x" and "x < 2 powi (e + 1)"
  shows "ilog2 x = e"
proof (rule ccontr)
  assume ne: "ilog2 x \<noteq> e"
  from ilog2_bounds [OF assms(1)]
  have b: "2 powi (ilog2 x) \<le> x" "x < 2 powi (ilog2 x + 1)"
    by simp_all
  show False
  proof (cases "ilog2 x < e")
    case True
    then have "ilog2 x + 1 \<le> e" by simp
    then have "(2::rat) powi (ilog2 x + 1) \<le> 2 powi e"
      by (intro power_int_increasing) simp_all
    with b(2) assms(2) show False by linarith
  next
    case False
    with ne have "e + 1 \<le> ilog2 x" by simp
    then have "(2::rat) powi (e + 1) \<le> 2 powi (ilog2 x)"
      by (intro power_int_increasing) simp_all
    with b(1) assms(3) show False by linarith
  qed
qed

lemma round_even_error: "\<bar>of_int (round_even m) - m\<bar> \<le> 1 / 2"
proof -
  have f: "of_int \<lfloor>m\<rfloor> \<le> m" "m < of_int \<lfloor>m\<rfloor> + 1"
    by linarith+
  consider "m - of_int \<lfloor>m\<rfloor> < 1 / 2" | "1 / 2 < m - of_int \<lfloor>m\<rfloor>"
    | "m - of_int \<lfloor>m\<rfloor> = 1 / 2"
    by linarith
  then show ?thesis
  proof cases
    case 1
    then have "round_even m = \<lfloor>m\<rfloor>"
      by (simp add: round_even_def)
    with 1 f show ?thesis by simp
  next
    case 2
    then have "round_even m = \<lfloor>m\<rfloor> + 1"
      by (simp add: round_even_def)
    with 2 f show ?thesis by simp
  next
    case 3
    then have "round_even m = \<lfloor>m\<rfloor> \<or> round_even m = \<lfloor>m\<rfloor> + 1"
      by (simp add: round_even_def Let_def)
    with 3 show ?thesis by auto
  qed
qed

lemma round_even_near:
  assumes "\<bar>m - of_int n\<bar> < 1 / 2"
  shows "round_even m = n"
proof (cases "of_int n \<le> m")
  case True
  with assms have "\<lfloor>m\<rfloor> = n"
    by (intro floor_unique) linarith+
  moreover from True assms have "m - of_int n < 1 / 2"
    by linarith
  ultimately show ?thesis
    by (simp add: round_even_def)
next
  case False
  have "of_int (n - 1) = (of_int n :: rat) - 1"
    by simp
  with False assms have "of_int (n - 1) \<le> m" "m < of_int (n - 1) + 1"
    by linarith+
  then have fl: "\<lfloor>m\<rfloor> = n - 1"
    by (rule floor_unique)
  from False assms have "1 / 2 < m - of_int (n - 1)"
    by simp
  with fl show ?thesis
    by (simp add: round_even_def)
qed

lemma round_even_of_int: "round_even (of_int n) = n"
  using round_even_near [of "of_int n" n] by simp

lemma quantum_pos: "0 < quantum x"
  by (simp add: quantum_def)

lemma rnd64_of_int [simp]: "rnd64 (of_int n) = Fin (of_int n)"
  by (simp add: rnd64_def)

lemma rnd64_of_nat [simp]: "rnd64 (of_nat n) = Fin (of_nat n)"
  using rnd64_of_int [of "int n"] by simp

lemma rnd64_numeral [simp]: "rnd64 (numeral k) = Fin (numeral k)"
  using rnd64_of_int [of "numeral k"] by simp

lemma rnd64_neg_numeral [simp]: "rnd64 (- numeral k) = Fin (- numeral k)"
  using rnd64_of_int [of "- numeral k"] by simp

lemma rnd64_0 [simp]: "rnd64 0 = Fin 0"
  using rnd64_of_int [of 0] by simp

lemma rnd64_1 [simp]: "rnd64 1 = Fin 1"
  using rnd64_of_int [of 1] by simp

lemma rnd64_error:
  assumes "rnd64 x = Fin y"
  shows "\<bar>y - x\<bar> \<le> quantum x / 2"
proof (cases "x = of_int \<lfloor>x\<rfloor>")
  case True
  with assms have "y = x"
    by (simp add: rnd64_def)
  then show ?thesis
    using quantum_pos [of x] by simp
next
  case False
  define q where "q = quantum x"
  have q: "0 < q"
    by (simp add: q_def quantum_pos)
  from False assms have y: "y = of_int (round_even (x / q)) * q"
    by (simp add: rnd64_def Let_def q_def split: if_splits)
  have "\<bar>of_int (round_even (x / q)) - x / q\<bar> * q \<le> 1 / 2 * q"
    using round_even_error [of "x / q"] q by (intro mult_right_mono) simp_all
  moreover have "\<bar>of_int (round_even (x / q)) - x / q\<bar> * q = \<bar>y - x\<bar>"
  proof -
    have "y - x = (of_int (round_even (x / q)) - x / q) * q"
      using q by (simp add: y field_simps)
    then show ?thesis
      using q by (simp add: abs_mult)
  qed
  ultimately show ?thesis
    by (simp add: q_def)
qed

lemma quantum_bound:
  assumes "x \<noteq> 0"
  shows "quantum x \<le> max (\<bar>x\<bar> / 2 ^ 52) (2 powi (- 1074))"
proof (cases "- 1022 \<le> ilog2 \<bar>x\<bar>")
  case True
  have "2 powi (ilog2 \<bar>x\<bar>) \<le> \<bar>x\<bar>"
    using ilog2_bounds [of "\<bar>x\<bar>"] assms by simp
  moreover have "(2::rat) powi (ilog2 \<bar>x\<bar> - 52) = 2 powi (ilog2 \<bar>x\<bar>) / 2 ^ 52"
    by (simp add: power_int_diff)
  ultimately have "quantum x \<le> \<bar>x\<bar> / 2 ^ 52"
    using True by (simp add: quantum_def max_def divide_right_mono)
  then show ?thesis by simp
next
  case False
  then have "quantum x = 2 powi (- 1074)"
    by (simp add: quantum_def max_def)
  then show ?thesis by simp
qed

lemma rnd64_close:
  assumes "rnd64 x = Fin y"
  shows "\<bar>y - x\<bar> \<le> max (\<bar>x\<bar> / 2 ^ 53) (2 powi (- 1075))"
proof (cases "x = 0")
  case True
  with assms show ?thesis by simp
next
  case False
  have "\<bar>y - x\<bar> \<le> quantum x / 2"
    using assms by (rule rnd64_error)
  also have "\<dots> \<le> max (\<bar>x\<bar> / 2 ^ 52) (2 powi (- 1074)) / 2"
    using quantum_bound [OF False] by simp
  also have "\<dots> = max (\<bar>x\<bar> / 2 ^ 52 / 2) (2 powi (- 1074) / 2)"
    by (simp add: max_def)
  also have "\<bar>x\<bar> / 2 ^ 52 / 2 = \<bar>x\<bar> / 2 ^ 53"
    by simp
  also have "(2::rat) powi (- 1074) / 2 = 2 powi (- 1075)"
    by (simp add: power_int_minus_divide)
  finally show ?thesis .
qed

lemma rnd64_eqI:
  assumes "of_int k < x" and "x < of_int k + 1"
    and "2 powi e \<le> \<bar>x\<bar>" and "\<bar>x\<bar> < 2 powi (e + 1)" and "- 1022 \<le> e"
    and "\<bar>x / 2 powi (e - 52) - of_int n\<bar> < 1 / 2"
    and "\<bar>of_int n * (2::rat) powi (e - 52)\<bar> < 2 ^ 1024"
  shows "rnd64 x = Fin (of_int n * 2 powi (e - 52))"
proof -
  have "\<lfloor>x\<rfloor> = k"
    using assms(1,2) by (intro floor_unique) simp_all
  with assms(1) have ni: "x \<noteq> of_int \<lfloor>x\<rfloor>"
    by simp
  have "x \<noteq> 0"
    using ni by auto
  then have "ilog2 \<bar>x\<bar> = e"
    using assms(3,4) by (intro ilog2_unique) simp_all
  then have q: "quantum x = 2 powi (e - 52)"
    using assms(5) by (simp add: quantum_def max_def)
  have "round_even (x / 2 powi (e - 52)) = n"
    using assms(6) by (rule round_even_near)
  with q ni assms(7) show ?thesis
    by (simp add: rnd64_def Let_def)
qed




lemma jdiv_300_2200: "jdiv (Fin 300) (Fin 2200) = Fin (1228254443828317 / 9007199254740992)"
  using rnd64_eqI [of 0 "300 / 2200" "- 3" 4913017775313268]
  by simp

lemma jdiv_100_737: "jdiv (Fin 100) (Fin 737) = Fin (2444287450404611 / 18014398509481984)"
  using rnd64_eqI [of 0 "100 / 737" "- 3" 4888574900809222]
  by simp

lemma jmul_737_ratio:
  "jmul (Fin 737) (Fin (1228254443828317 / 9007199254740992)) =
     Fin (7072058789855231 / 70368744177664)"
  using rnd64_eqI [of 100 "737 * (1228254443828317 / 9007199254740992)" 6 7072058789855231]
  by simp

section \<open>Geometry of a render\<close>

lemma length_pxFactorValues: "length pxFactorValues = 5"
  by (simp add: pxFactorValues_def)


lemma factor_at_last: "factor_at (length pxFactorValues - 1) = Some (Fin 1)"
  by (simp add: factor_at_def pxFactorValues_def)

lemma floor_numeral_div: "\<lfloor>numeral a / numeral b :: rat\<rfloor> = numeral a div numeral b"
  using floor_divide_of_int_eq [of "numeral a" "numeral b", where ?'a = rat] by simp

lemma round_near: "\<bar>of_int \<lfloor>x + 1 / 2\<rfloor> - x\<bar> \<le> (1 / 2 :: rat)"
  by linarith

lemma render_draw_wide:
  "jgt (jdiv (Fin (of_nat w)) (Fin (of_nat h))) (to_number ratio) \<Longrightarrow>
   newX (render_draw w h ratio i) = Fin 0 \<and> newY (render_draw w h ratio i) = Fin 0 \<and>
   newWidth (render_draw w h ratio i) = Fin (of_nat w) \<and>
   newHeight (render_draw w h ratio i) = jround (jdiv (Fin (of_nat w)) (to_number ratio))"
  by (simp add: render_draw_def Let_def)

lemma render_draw_tall:
  "\<not> jgt (jdiv (Fin (of_nat w)) (Fin (of_nat h))) (to_number ratio) \<Longrightarrow>
   newX (render_draw w h ratio i) =
     jdiv (jsub (Fin (of_nat w)) (jround (jmul (Fin (of_nat h)) (to_number ratio)))) (Fin 2) \<and>
   newY (render_draw w h ratio i) = Fin 0 \<and>
   newWidth (render_draw w h ratio i) = jround (jmul (Fin (of_nat h)) (to_number ratio)) \<and>
   newHeight (render_draw w h ratio i) = Fin (of_nat h)"
  by (simp add: render_draw_def Let_def)

lemma render_draw_newY: "newY (render_draw w h ratio i) = Fin 0"
  by (simp add: render_draw_def Let_def)

lemma render_draw_index: "d_index (render_draw w h ratio i) = i"
  by (simp add: render_draw_def Let_def)

lemma render_draw_ratio: "d_ratio (render_draw w h ratio i) = ratio"
  by (simp add: render_draw_def Let_def)

section \<open>Effects of the methods\<close>

lemma renders_append: "renders (xs @ ys) = renders xs @ renders ys"
  by (induction xs rule: renders.induct) simp_all

lemma timers_clearTimeout:
  "timers (clearTimeout h s) = filter (\<lambda>t. Some (tid t) \<noteq> h) (timers s)"
proof (cases h)
  case None
  then show ?thesis by (simp add: clearTimeout_def)
next
  case (Some i)
  have "filter (\<lambda>t. tid t \<noteq> i) (timers s) = timers s" if "i \<notin> tid ` set (timers s)"
    using that by (intro filter_True) auto
  moreover have "(\<lambda>t. Some (tid t) \<noteq> Some i) = (\<lambda>t. tid t \<noteq> i)"
    by auto
  ultimately show ?thesis
    using Some by (simp add: clearTimeout_def)
qed

lemma clearTimeout_fields:
  "nextId (clearTimeout h s) = nextId s"
  "renders (trace (clearTimeout h s)) = renders (trace s)"
  "pxIndex (clearTimeout h s) = pxIndex s"
  "dom_inner (clearTimeout h s) = dom_inner s"
  "status (clearTimeout h s) = status s"
  "bindings (clearTimeout h s) = bindings s"
  "enterFired (clearTimeout h s) = enterFired s"
  "imgRatio (clearTimeout h s) = imgRatio s"
  "clock (clearTimeout h s) = clock s"
  "canvasW (clearTimeout h s) = canvasW s"
  "canvasH (clearTimeout h s) = canvasH s"
  "wrapW (clearTimeout h s) = wrapW s"
  "wrapH (clearTimeout h s) = wrapH s"
  by (simp_all add: clearTimeout_def renders_append split: option.splits)

lemma on_resize_fields:
  "timers (on_resize s) =
     filter (\<lambda>t. Some (tid t) \<noteq> resizeTimeout s) (timers s) @
       [\<lparr>tid = nextId s, due = clock s + 100, cb = ResizeCb\<rparr>]"
  "nextId (on_resize s) = nextId s + 1"
  "resizeTimeout (on_resize s) = Some (nextId s)"
  "renders (trace (on_resize s)) = renders (trace s)"
  "pxIndex (on_resize s) = pxIndex s"
  "dom_inner (on_resize s) = dom_inner s"
  "status (on_resize s) = status s"
  "bindings (on_resize s) = bindings s"
  "enterFired (on_resize s) = enterFired s"
  "imgRatio (on_resize s) = imgRatio s"
  "clock (on_resize s) = clock s"
  "canvasW (on_resize s) = canvasW s"
  "canvasH (on_resize s) = canvasH s"
  "wrapW (on_resize s) = wrapW s"
  "wrapH (on_resize s) = wrapH s"
  by (simp_all add: on_resize_def setTimeout_def Let_def renders_append
      timers_clearTimeout clearTimeout_fields)


lemma render_fields:
  "trace (render s) =
     trace s @ [Rendered (render_draw (canvasW s) (canvasH s) (imgRatio s) (pxIndex s))]"
  "timers (render s) = timers s"
  "nextId (render s) = nextId s"
  "resizeTimeout (render s) = resizeTimeout s"
  "pxIndex (render s) = pxIndex s"
  "dom_inner (render s) = dom_inner s"
  "status (render s) = status s"
  "bindings (render s) = bindings s"
  "enterFired (render s) = enterFired s"
  "imgRatio (render s) = imgRatio s"
  "clock (render s) = clock s"
  "canvasW (render s) = canvasW s"
  "canvasH (render s) = canvasH s"
  "wrapW (render s) = wrapW s"
  "wrapH (render s) = wrapH s"
  by (simp_all add: render_def)

lemma remove_timer_fields:
  "timers (remove_timer i s) = filter (\<lambda>t. tid t \<noteq> i) (timers s)"
  "trace (remove_timer i s) = trace s"
  "nextId (remove_timer i s) = nextId s"
  "resizeTimeout (remove_timer i s) = resizeTimeout s"
  "pxIndex (remove_timer i s) = pxIndex s"
  "dom_inner (remove_timer i s) = dom_inner s"
  "status (remove_timer i s) = status s"
  "bindings (remove_timer i s) = bindings s"
  "enterFired (remove_timer i s) = enterFired s"
  "imgRatio (remove_timer i s) = imgRatio s"
  "clock (remove_timer i s) = clock s"
  "canvasW (remove_timer i s) = canvasW s"
  "canvasH (remove_timer i s) = canvasH s"
  "wrapW (remove_timer i s) = wrapW s"
  "wrapH (remove_timer i s) = wrapH s"
  by (simp_all add: remove_timer_def)

lemma animatePixels_go:
  assumes "pxIndex s < length pxFactorValues"
  shows
  "trace (animatePixels s) =
     trace s @ [Rendered (render_draw (canvasW s) (canvasH s) (imgRatio s) (pxIndex s)),
                Armed \<lparr>tid = nextId s, due = clock s + 100, cb = StepCb\<rparr>]"
  "timers (animatePixels s) = timers s @ [\<lparr>tid = nextId s, due = clock s + 100, cb = StepCb\<rparr>]"
  "nextId (animatePixels s) = nextId s + 1"
  "resizeTimeout (animatePixels s) = resizeTimeout s"
  "pxIndex (animatePixels s) = pxIndex s"
  "dom_inner (animatePixels s) = dom_inner s"
  "status (animatePixels s) = status s"
  "bindings (animatePixels s) = bindings s"
  "enterFired (animatePixels s) = enterFired s"
  "imgRatio (animatePixels s) = imgRatio s"
  "clock (animatePixels s) = clock s"
  "canvasW (animatePixels s) = canvasW s"
  "canvasH (animatePixels s) = canvasH s"
  "wrapW (animatePixels s) = wrapW s"
  "wrapH (animatePixels s) = wrapH s"
  using assms by (simp_all add: animatePixels_def setTimeout_def Let_def render_fields)

lemma animatePixels_stop:
  "\<not> pxIndex s < length pxFactorValues \<Longrightarrow> animatePixels s = s"
  by (simp add: animatePixels_def)

lemma on_enter_fields:
  "trace (on_enter s) =
     trace s @ [Rendered (render_draw (canvasW s) (canvasH s) (imgRatio s) 0),
                Armed \<lparr>tid = nextId s, due = clock s + 100, cb = StepCb\<rparr>]"
  "timers (on_enter s) = timers s @ [\<lparr>tid = nextId s, due = clock s + 100, cb = StepCb\<rparr>]"
  "nextId (on_enter s) = nextId s + 1"
  "resizeTimeout (on_enter s) = resizeTimeout s"
  "pxIndex (on_enter s) = 0"
  "dom_inner (on_enter s) = dom_inner s"
  "status (on_enter s) = status s"
  "bindings (on_enter s) = bindings s"
  "enterFired (on_enter s) = enterFired s"
  "imgRatio (on_enter s) = imgRatio s"
  "clock (on_enter s) = clock s"
  "canvasW (on_enter s) = canvasW s"
  "canvasH (on_enter s) = canvasH s"
  "wrapW (on_enter s) = wrapW s"
  "wrapH (on_enter s) = wrapH s"
  by (simp_all add: on_enter_def animatePixels_go length_pxFactorValues)

lemma step_timer_go:
  assumes "pxIndex s + 1 < length pxFactorValues"
  shows
  "trace (step_timer s) =
     trace s @ [Rendered (render_draw (canvasW s) (canvasH s) (imgRatio s) (pxIndex s + 1)),
                Armed \<lparr>tid = nextId s, due = clock s + 100, cb = StepCb\<rparr>]"
  "timers (step_timer s) = timers s @ [\<lparr>tid = nextId s, due = clock s + 100, cb = StepCb\<rparr>]"
  "nextId (step_timer s) = nextId s + 1"
  "resizeTimeout (step_timer s) = resizeTimeout s"
  "pxIndex (step_timer s) = pxIndex s + 1"
  "dom_inner (step_timer s) = dom_inner s"
  "status (step_timer s) = status s"
  "bindings (step_timer s) = bindings s"
  "enterFired (step_timer s) = enterFired s"
  "imgRatio (step_timer s) = imgRatio s"
  "clock (step_timer s) = clock s"
  "canvasW (step_timer s) = canvasW s"
  "canvasH (step_timer s) = canvasH s"
  "wrapW (step_timer s) = wrapW s"
  "wrapH (step_timer s) = wrapH s"
  using assms by (simp_all add: step_timer_def animatePixels_go)

lemma step_timer_stop:
  "\<not> pxIndex s + 1 < length pxFactorValues \<Longrightarrow> step_timer s = s\<lparr>pxIndex := pxIndex s + 1\<rparr>"
  by (simp add: step_timer_def animatePixels_stop)

lemma resize_timer_fields:
  "trace (resize_timer s) =
     trace s @ [Rendered (render_draw (wrapW s) (wrapH s) (imgRatio s) (length pxFactorValues - 1))]"
  "timers (resize_timer s) = timers s"
  "nextId (resize_timer s) = nextId s"
  "resizeTimeout (resize_timer s) = resizeTimeout s"
  "pxIndex (resize_timer s) = length pxFactorValues - 1"
  "dom_inner (resize_timer s) = dom_inner s"
  "status (resize_timer s) = status s"
  "bindings (resize_timer s) = bindings s"
  "enterFired (resize_timer s) = enterFired s"
  "imgRatio (resize_timer s) = imgRatio s"
  "clock (resize_timer s) = clock s"
  "canvasW (resize_timer s) = wrapW s"
  "canvasH (resize_timer s) = wrapH s"
  "wrapW (resize_timer s) = wrapW s"
  "wrapH (resize_timer s) = wrapH s"
  by (simp_all add: resize_timer_def render_fields setCanvasSize_def)

lemma onload_fields:
  "trace (onload iw ih s) =
     trace s @ [Rendered (render_draw (wrapW s) (wrapH s)
                  (Some (jdiv (Fin (of_nat iw)) (Fin (of_nat ih)))) (pxIndex s))]"
  "timers (onload iw ih s) = timers s"
  "nextId (onload iw ih s) = nextId s"
  "resizeTimeout (onload iw ih s) = resizeTimeout s"
  "pxIndex (onload iw ih s) = pxIndex s"
  "dom_inner (onload iw ih s) = dom_inner s"
  "status (onload iw ih s) = Loaded"
  "bindings (onload iw ih s) =
     bindings s @ [ResizeListener, EnterTrigger] @
       (if dom_inner s \<noteq> None then [ParallaxTimeline] else []) @ [BottomTrigger]"
  "enterFired (onload iw ih s) = enterFired s"
  "imgRatio (onload iw ih s) = Some (jdiv (Fin (of_nat iw)) (Fin (of_nat ih)))"
  "clock (onload iw ih s) = clock s"
  "canvasW (onload iw ih s) = wrapW s"
  "canvasH (onload iw ih s) = wrapH s"
  "wrapW (onload iw ih s) = wrapW s"
  "wrapH (onload iw ih s) = wrapH s"
  by (simp_all add: onload_def initEvents_def Let_def render_fields setCanvasSize_def)

lemma fire_SomeD:
  assumes "fire i s = Some s'"
  shows "\<exists>t \<in> set (timers s). tid t = i \<and> due t \<le> clock s \<and>
           s' = (case cb t of
                   ResizeCb \<Rightarrow> resize_timer (remove_timer i s)
                 | StepCb \<Rightarrow> step_timer (remove_timer i s))"
proof (cases "filter (\<lambda>t. tid t = i) (timers s)")
  case Nil
  with assms show ?thesis by (simp add: fire_def)
next
  case (Cons t ts)
  then have "t \<in> set (filter (\<lambda>t. tid t = i) (timers s))"
    by simp
  then have "t \<in> set (timers s)" "tid t = i"
    by simp_all
  moreover from assms Cons have "due t \<le> clock s"
    by (simp add: fire_def split: if_splits)
  moreover from assms Cons have
    "s' = (case cb t of
             ResizeCb \<Rightarrow> resize_timer (remove_timer i s)
           | StepCb \<Rightarrow> step_timer (remove_timer i s))"
    by (simp add: fire_def split: if_splits)
  ultimately show ?thesis by blast
qed

section \<open>The invariants are preserved\<close>

lemma one_step_Nil: "one_step []"
  by (simp add: one_step_def)

lemma one_step_subset: "one_step ts \<Longrightarrow> set us \<subseteq> set ts \<Longrightarrow> one_step us"
  unfolding one_step_def by blast

lemma one_step_filter: "one_step ts \<Longrightarrow> one_step (filter P ts)"
  using one_step_subset [of ts "filter P ts"] by simp

lemma one_step_append_other: "one_step ts \<Longrightarrow> cb t \<noteq> StepCb \<Longrightarrow> one_step (ts @ [t])"
  unfolding one_step_def by (metis Un_iff empty_iff insert_iff list.set(1) list.set(2) set_append)

lemma one_step_new: "\<forall>u \<in> set ts. cb u \<noteq> StepCb \<Longrightarrow> one_step (ts @ [t])"
  unfolding one_step_def by (metis Un_iff empty_iff insert_iff list.set(1) list.set(2) set_append)

lemma one_step_removed:
  assumes "one_step ts" and "t \<in> set ts" and "cb t = StepCb"
  shows "\<forall>u \<in> set (filter (\<lambda>u. tid u \<noteq> tid t) ts). cb u \<noteq> StepCb"
proof
  fix u
  assume "u \<in> set (filter (\<lambda>u. tid u \<noteq> tid t) ts)"
  then have u: "u \<in> set ts" "tid u \<noteq> tid t"
    by simp_all
  show "cb u \<noteq> StepCb"
  proof
    assume "cb u = StepCb"
    with assms u(1) have "tid u = tid t"
      unfolding one_step_def by blast
    with u(2) show False by simp
  qed
qed

lemma rz_ok_subset: "rz_ok h n ts \<Longrightarrow> set us \<subseteq> set ts \<Longrightarrow> rz_ok h n us"
  unfolding rz_ok_def by blast

lemma rz_ok_filter: "rz_ok h n ts \<Longrightarrow> rz_ok h n (filter P ts)"
  using rz_ok_subset [of h n ts "filter P ts"] by simp

lemma rz_ok_step:
  assumes "rz_ok h n ts" and "cb t = StepCb" and "tid t = n"
  shows "rz_ok h (n + 1) (ts @ [t])"
proof -
  have old: "u \<in> set ts \<or> u = t" if "u \<in> set (ts @ [t])" for u
    using that by auto
  have lt: "j < n" if "h = Some j" for j
    using assms(1) that unfolding rz_ok_def by blast
  have 1: "h = Some (tid u)" if "u \<in> set (ts @ [t])" and "cb u = ResizeCb" for u
  proof -
    from that(2) assms(2) have "u \<noteq> t" by auto
    with old [OF that(1)] have "u \<in> set ts" by blast
    with assms(1) that(2) show ?thesis unfolding rz_ok_def by blast
  qed
  have 2: "cb u = ResizeCb" if "u \<in> set (ts @ [t])" and "h = Some (tid u)" for u
  proof -
    from lt [OF that(2)] assms(3) have "u \<noteq> t" by auto
    with old [OF that(1)] have "u \<in> set ts" by blast
    with assms(1) that(2) show ?thesis unfolding rz_ok_def by blast
  qed
  have 3: "j < n + 1" if "h = Some j" for j
    using lt [OF that] by arith
  show ?thesis
    unfolding rz_ok_def using 1 2 3 by blast
qed

lemma rz_ok_rearm:
  assumes "\<forall>u \<in> set ts. tid u < n" and "rz_ok h n ts" and "cb t = ResizeCb" and "tid t = n"
  shows "rz_ok (Some n) (n + 1) (filter (\<lambda>u. Some (tid u) \<noteq> h) ts @ [t])"
proof -
  let ?ts = "filter (\<lambda>u. Some (tid u) \<noteq> h) ts @ [t]"
  have old: "(u \<in> set ts \<and> Some (tid u) \<noteq> h) \<or> u = t" if "u \<in> set ?ts" for u
    using that by auto
  have 1: "Some n = Some (tid u)" if "u \<in> set ?ts" and "cb u = ResizeCb" for u
  proof (cases "u = t")
    case True
    with assms(4) show ?thesis by simp
  next
    case False
    with old [OF that(1)] have "u \<in> set ts" "Some (tid u) \<noteq> h" by blast+
    with assms(2) that(2) show ?thesis unfolding rz_ok_def by metis
  qed
  have 2: "cb u = ResizeCb" if "u \<in> set ?ts" and "Some n = Some (tid u)" for u
  proof (cases "u = t")
    case True
    with assms(3) show ?thesis by simp
  next
    case False
    with old [OF that(1)] have "u \<in> set ts" by blast
    with assms(1) have "tid u < n" by blast
    with that(2) show ?thesis by simp
  qed
  have 3: "j < n + 1" if "Some n = Some j" for j
    using that by simp
  show ?thesis
    unfolding rz_ok_def using 1 2 3 by blast
qed

lemma inv_constructor: "inv (constructor cw ch)"
  by (simp add: inv_def inv_load_def inv_ids_def inv_rz_def rz_ok_def inv_seq_def inv_log_def
      constructor_def one_step_Nil)

lemma loaded_if_timer: "inv_load s \<Longrightarrow> t \<in> set (timers s) \<Longrightarrow> status s = Loaded"
  by (auto simp: inv_load_def)

lemma loaded_if_binding: "inv_load s \<Longrightarrow> b \<in> set (bindings s) \<Longrightarrow> status s = Loaded"
  by (auto simp: inv_load_def)

lemma inv_onload:
  assumes "inv s" and "status s = Pending"
  shows "inv (onload iw ih s)"
proof -
  from assms have pre: "dom_inner s = None" "bindings s = []" "timers s = []" "trace s = []"
    "pxIndex s = 0" "\<not> enterFired s"
    by (simp_all add: inv_def inv_load_def)
  have "inv_load (onload iw ih s)"
    using pre by (simp add: inv_load_def onload_fields)
  moreover have "inv_ids (onload iw ih s)" "inv_seq (onload iw ih s)"
    using pre by (simp_all add: inv_ids_def inv_seq_def onload_fields one_step_Nil)
  moreover have "inv_rz (onload iw ih s)"
    using assms(1) by (simp add: inv_def inv_rz_def onload_fields)
  moreover have "inv_log (onload iw ih s)"
    using pre
    by (simp add: inv_log_def onload_fields render_draw_index render_draw_ratio
        length_pxFactorValues)
  ultimately show ?thesis by (simp add: inv_def)
qed

lemma inv_on_resize:
  assumes "inv s" and "ResizeListener \<in> set (bindings s)"
  shows "inv (on_resize s)"
proof -
  have ld: "status s = Loaded"
    using assms loaded_if_binding by (simp add: inv_def)
  have "inv_load (on_resize s)"
    using assms(1) ld by (simp add: inv_def inv_load_def on_resize_fields)
  moreover have "inv_ids (on_resize s)"
    using assms(1) by (auto simp: inv_def inv_ids_def on_resize_fields distinct_map_filter)
  moreover have "inv_rz (on_resize s)"
    using assms(1) rz_ok_rearm [of "timers s" "nextId s" "resizeTimeout s"]
    by (simp add: inv_def inv_rz_def inv_ids_def on_resize_fields)
  moreover have "inv_seq (on_resize s)"
    using assms(1)
    by (auto simp: inv_def inv_seq_def on_resize_fields intro: one_step_append_other one_step_filter)
  moreover have "inv_log (on_resize s)"
    using assms by (simp add: inv_def inv_log_def on_resize_fields)
  ultimately show ?thesis by (simp add: inv_def)
qed

lemma inv_on_enter:
  assumes "inv s" and "EnterTrigger \<in> set (bindings s)" and "\<not> enterFired s"
  shows "inv (on_enter (s\<lparr>enterFired := True\<rparr>))"
proof -
  let ?s0 = "s\<lparr>enterFired := True\<rparr>"
  have ld: "status s = Loaded"
    using assms(1,2) loaded_if_binding by (simp add: inv_def)
  have nostep: "\<forall>t \<in> set (timers s). cb t \<noteq> StepCb"
    using assms(1,3) by (auto simp: inv_def inv_seq_def)
  have "inv_load (on_enter ?s0)"
    using assms(1) ld by (simp add: inv_def inv_load_def on_enter_fields)
  moreover have "inv_ids (on_enter ?s0)"
    using assms(1) by (auto simp: inv_def inv_ids_def on_enter_fields)
  moreover have "inv_rz (on_enter ?s0)"
    using assms(1) rz_ok_step [of "resizeTimeout s" "nextId s" "timers s"]
    by (simp add: inv_def inv_rz_def on_enter_fields)
  moreover have "inv_seq (on_enter ?s0)"
    using nostep by (simp add: inv_seq_def on_enter_fields length_pxFactorValues one_step_new)
  moreover have "inv_log (on_enter ?s0)"
    using assms(1) ld
    by (auto simp: inv_def inv_log_def inv_load_def on_enter_fields renders_append
        render_draw_index render_draw_ratio length_pxFactorValues)
  ultimately show ?thesis by (simp add: inv_def)
qed

lemma inv_resize_timer:
  assumes "inv s" and "t \<in> set (timers s)" and "cb t = ResizeCb"
  shows "inv (resize_timer (remove_timer (tid t) s))"
proof -
  let ?s1 = "remove_timer (tid t) s"
  have ld: "status s = Loaded"
    using assms(1,2) loaded_if_timer by (simp add: inv_def)
  have "inv_load (resize_timer ?s1)"
    using assms(1) ld by (simp add: inv_def inv_load_def resize_timer_fields remove_timer_fields)
  moreover have "inv_ids (resize_timer ?s1)"
    using assms(1)
    by (auto simp: inv_def inv_ids_def resize_timer_fields remove_timer_fields distinct_map_filter)
  moreover have "inv_rz (resize_timer ?s1)"
    using assms(1) rz_ok_filter
    by (simp add: inv_def inv_rz_def resize_timer_fields remove_timer_fields)
  moreover have "inv_seq (resize_timer ?s1)"
    using assms(1)
    by (auto simp: inv_def inv_seq_def resize_timer_fields remove_timer_fields
        length_pxFactorValues intro: one_step_filter)
  moreover have "inv_log (resize_timer ?s1)"
    using assms(1) ld
    by (auto simp: inv_def inv_log_def inv_load_def resize_timer_fields remove_timer_fields
        renders_append render_draw_index render_draw_ratio length_pxFactorValues)
  ultimately show ?thesis by (simp add: inv_def)
qed

lemma no_step_after_remove:
  assumes "inv_seq s" and "t \<in> set (timers s)" and "cb t = StepCb"
  shows "\<forall>u \<in> set (timers (remove_timer (tid t) s)). cb u \<noteq> StepCb"
  using one_step_removed [of "timers s" t] assms
  by (simp add: inv_seq_def remove_timer_fields)

lemma inv_step_timer:
  assumes "inv s" and "t \<in> set (timers s)" and "cb t = StepCb"
  shows "inv (step_timer (remove_timer (tid t) s))"
proof -
  let ?s1 = "remove_timer (tid t) s"
  have ld: "status s = Loaded"
    using assms(1,2) loaded_if_timer by (simp add: inv_def)
  have sq: "inv_seq s"
    using assms(1) by (simp add: inv_def)
  have px: "pxIndex s < length pxFactorValues" and ef: "enterFired s"
    using sq assms(2,3) by (auto simp: inv_seq_def)
  have nostep: "\<forall>u \<in> set (timers ?s1). cb u \<noteq> StepCb"
    using no_step_after_remove [OF sq assms(2,3)] .
  show ?thesis
  proof (cases "pxIndex ?s1 + 1 < length pxFactorValues")
    case True
    note go = step_timer_go [OF True]
    have "inv_load (step_timer ?s1)"
      using assms(1) ld by (simp add: inv_def inv_load_def go remove_timer_fields)
    moreover have "inv_ids (step_timer ?s1)"
      using assms(1)
      by (auto simp: inv_def inv_ids_def go remove_timer_fields distinct_map_filter)
    moreover have "inv_rz (step_timer ?s1)"
      using assms(1) rz_ok_filter rz_ok_step [of "resizeTimeout s" "nextId s"]
      by (simp add: inv_def inv_rz_def go remove_timer_fields)
    moreover have "inv_seq (step_timer ?s1)"
      using nostep True ef one_step_new [of "timers ?s1"]
      by (simp add: inv_seq_def go remove_timer_fields)
    moreover have "inv_log (step_timer ?s1)"
      using assms(1) ld True
      by (auto simp: inv_def inv_log_def inv_load_def go remove_timer_fields
          renders_append render_draw_index render_draw_ratio)
    ultimately show ?thesis by (simp add: inv_def)
  next
    case False
    note stop = step_timer_stop [OF False]
    have "inv_load (step_timer ?s1)"
      using assms(1) ld by (simp add: inv_def inv_load_def stop remove_timer_fields)
    moreover have "inv_ids (step_timer ?s1)"
      using assms(1)
      by (auto simp: inv_def inv_ids_def stop remove_timer_fields distinct_map_filter)
    moreover have "inv_rz (step_timer ?s1)"
      using assms(1) rz_ok_filter
      by (simp add: inv_def inv_rz_def stop remove_timer_fields)
    moreover have "inv_seq (step_timer ?s1)"
      using nostep px sq
      by (auto simp: inv_seq_def stop remove_timer_fields intro: one_step_filter)
    moreover have "inv_log (step_timer ?s1)"
      using assms(1) by (simp add: inv_def inv_log_def stop remove_timer_fields)
    ultimately show ?thesis by (simp add: inv_def)
  qed
qed

lemma inv_fire:
  assumes "inv s" and "fire i s = Some s'"
  shows "inv s'"
proof -
  from fire_SomeD [OF assms(2)] obtain t where t: "t \<in> set (timers s)" "tid t = i"
    and s': "s' = (case cb t of
                     ResizeCb \<Rightarrow> resize_timer (remove_timer i s)
                   | StepCb \<Rightarrow> step_timer (remove_timer i s))"
    by blast
  show ?thesis
  proof (cases "cb t")
    case ResizeCb
    with inv_resize_timer [OF assms(1) t(1)] t(2) s' show ?thesis by simp
  next
    case StepCb
    with inv_step_timer [OF assms(1) t(1)] t(2) s' show ?thesis by simp
  qed
qed

lemma inv_layout: "inv s \<Longrightarrow> inv (s\<lparr>wrapW := cw, wrapH := ch\<rparr>)"
  by (simp add: inv_def inv_load_def inv_ids_def inv_rz_def inv_seq_def inv_log_def)

lemma inv_elapse: "inv s \<Longrightarrow> inv (s\<lparr>clock := clock s + n\<rparr>)"
  by (simp add: inv_def inv_load_def inv_ids_def inv_rz_def inv_seq_def inv_log_def)

lemma inv_bottom: "inv s \<Longrightarrow> inv (on_enter_bottom (s\<lparr>bottomFired := True\<rparr>))"
  by (simp add: inv_def inv_load_def inv_ids_def inv_rz_def inv_seq_def inv_log_def
      on_enter_bottom_def)

lemma inv_load_error:
  assumes "inv s" and "status s = Pending"
  shows "inv (s\<lparr>status := Failed\<rparr>)"
proof -
  have "inv_load (s\<lparr>status := Failed\<rparr>)"
    using assms by (simp add: inv_def inv_load_def)
  moreover have "inv_ids (s\<lparr>status := Failed\<rparr>)" "inv_rz (s\<lparr>status := Failed\<rparr>)"
    "inv_seq (s\<lparr>status := Failed\<rparr>)" "inv_log (s\<lparr>status := Failed\<rparr>)"
    using assms(1) by (simp_all add: inv_def inv_ids_def inv_rz_def inv_seq_def inv_log_def)
  ultimately show ?thesis by (simp add: inv_def)
qed

lemma inv_step:
  assumes "inv s" and "step e s = Some s'"
  shows "inv s'"
proof (cases e)
  case (Load iw ih)
  with assms inv_onload show ?thesis by (auto split: if_splits)
next
  case LoadError
  with assms inv_load_error show ?thesis by (auto split: if_splits)
next
  case WindowResize
  with assms inv_on_resize show ?thesis by (auto split: if_splits)
next
  case (Layout cw ch)
  with assms inv_layout show ?thesis by auto
next
  case ReachTop
  with assms inv_on_enter show ?thesis by (auto split: if_splits)
next
  case ReachBottom
  with assms inv_bottom show ?thesis by (auto split: if_splits)
next
  case (Elapse n)
  with assms inv_elapse show ?thesis by auto
next
  case (Fire i)
  with assms inv_fire show ?thesis by simp
qed

lemma inv_run: "inv s \<Longrightarrow> run es s = Some s' \<Longrightarrow> inv s'"
proof (induction es arbitrary: s)
  case Nil
  then show ?case by simp
next
  case (Cons e es)
  then show ?case by (auto split: option.splits dest: inv_step)
qed

lemma inv_reachable: "run es (constructor cw ch) = Some s \<Longrightarrow> inv s"
  using inv_run [OF inv_constructor] .

section \<open>Pending timers and concrete runs\<close>

lemma run_append:
  "run (es @ es') s = (case run es s of None \<Rightarrow> None | Some s' \<Rightarrow> run es' s')"
  by (induction es arbitrary: s) (simp_all split: option.splits)

lemma tid_inj:
  assumes "inv_ids s" and "t \<in> set (timers s)" and "u \<in> set (timers s)" and "tid t = tid u"
  shows "t = u"
proof -
  from assms(1) have "inj_on tid (set (timers s))"
    by (simp add: inv_ids_def distinct_map)
  with assms(2-4) show ?thesis
    by (rule_tac inj_onD)
qed

lemma filter_eq_single: "distinct xs \<Longrightarrow> x \<in> set xs \<Longrightarrow> filter (\<lambda>u. u = x) xs = [x]"
  by (induction xs) (auto simp: filter_empty_conv)

lemma filter_tid_single:
  assumes "inv_ids s" and "t \<in> set (timers s)"
  shows "filter (\<lambda>u. tid u = tid t) (timers s) = [t]"
proof -
  have d: "distinct (timers s)"
    using assms(1) by (simp add: inv_ids_def distinct_map)
  have "filter (\<lambda>u. tid u = tid t) (timers s) = filter (\<lambda>u. u = t) (timers s)"
    using tid_inj [OF assms(1) _ assms(2)] by (intro filter_cong) auto
  also have "\<dots> = [t]"
    using d assms(2) by (rule filter_eq_single)
  finally show ?thesis .
qed

lemma fire_pending:
  assumes "inv_ids s" and "t \<in> set (timers s)"
  shows "fire (tid t) s =
           (if clock s < due t then None
            else Some (case cb t of
                         ResizeCb \<Rightarrow> resize_timer (remove_timer (tid t) s)
                       | StepCb \<Rightarrow> step_timer (remove_timer (tid t) s)))"
  by (simp add: fire_def filter_tid_single [OF assms])


lemma pending_filter_keep:
  assumes "\<forall>u \<in> set ts. cb u = f \<longrightarrow> Q u"
  shows "filter (\<lambda>u. cb u = f) (filter Q ts) = filter (\<lambda>u. cb u = f) ts"
  using assms by (induction ts) auto

lemma pending_step_on_resize:
  assumes "inv s"
  shows "pending StepCb (on_resize s) = pending StepCb s"
proof -
  have "rz_ok (resizeTimeout s) (nextId s) (timers s)"
    using assms by (simp add: inv_def inv_rz_def)
  then have "\<forall>u \<in> set (timers s). cb u = StepCb \<longrightarrow> Some (tid u) \<noteq> resizeTimeout s"
    unfolding rz_ok_def by (metis callback.distinct(1))
  then have "filter (\<lambda>u. cb u = StepCb)
      (filter (\<lambda>t. Some (tid t) \<noteq> resizeTimeout s) (timers s)) =
      filter (\<lambda>u. cb u = StepCb) (timers s)"
    by (rule pending_filter_keep)
  then show ?thesis
    by (simp add: pending_def on_resize_fields del: filter_filter)
qed

lemma pending_resize_on_resize:
  assumes "inv s"
  shows "pending ResizeCb (on_resize s) = [\<lparr>tid = nextId s, due = clock s + 100, cb = ResizeCb\<rparr>]"
proof -
  have "rz_ok (resizeTimeout s) (nextId s) (timers s)"
    using assms by (simp add: inv_def inv_rz_def)
  then have "\<forall>u \<in> set (filter (\<lambda>t. Some (tid t) \<noteq> resizeTimeout s) (timers s)). cb u \<noteq> ResizeCb"
    unfolding rz_ok_def by (metis (mono_tags, lifting) mem_Collect_eq set_filter)
  then have "filter (\<lambda>u. cb u = ResizeCb)
      (filter (\<lambda>t. Some (tid t) \<noteq> resizeTimeout s) (timers s)) = []"
    unfolding filter_empty_conv by blast
  then show ?thesis
    by (simp add: pending_def on_resize_fields del: filter_filter)
qed

lemma pending_resize_single:
  assumes "inv s" and "t \<in> set (timers s)" and "cb t = ResizeCb"
  shows "pending ResizeCb s = [t]"
proof -
  have rz: "rz_ok (resizeTimeout s) (nextId s) (timers s)" and ids: "inv_ids s"
    using assms(1) by (simp_all add: inv_def inv_rz_def)
  have h: "resizeTimeout s = Some (tid t)"
    using rz assms(2,3) unfolding rz_ok_def by blast
  have "(cb u = ResizeCb) = (tid u = tid t)" if "u \<in> set (timers s)" for u
    using rz that h unfolding rz_ok_def by (metis option.inject)
  then have "filter (\<lambda>u. cb u = ResizeCb) (timers s) = filter (\<lambda>u. tid u = tid t) (timers s)"
    by (intro filter_cong) auto
  then show ?thesis
    using filter_tid_single [OF ids assms(2)] by (simp add: pending_def)
qed

lemma pending_step_single:
  assumes "inv s" and "t \<in> set (timers s)" and "cb t = StepCb"
  shows "pending StepCb s = [t]"
proof -
  have os: "one_step (timers s)" and ids: "inv_ids s"
    using assms(1) by (simp_all add: inv_def inv_seq_def)
  have "(cb u = StepCb) = (tid u = tid t)" if "u \<in> set (timers s)" for u
  proof
    assume "cb u = StepCb"
    with os that assms(2,3) show "tid u = tid t"
      unfolding one_step_def by blast
  next
    assume "tid u = tid t"
    with tid_inj [OF ids that assms(2)] assms(3) show "cb u = StepCb"
      by simp
  qed
  then have "filter (\<lambda>u. cb u = StepCb) (timers s) = filter (\<lambda>u. tid u = tid t) (timers s)"
    by (intro filter_cong) auto
  then show ?thesis
    using filter_tid_single [OF ids assms(2)] by (simp add: pending_def)
qed

lemma pending_none_after_remove:
  assumes "inv s" and "t \<in> set (timers s)"
  shows "pending (cb t) (remove_timer (tid t) s) = []"
proof (cases "cb t")
  case ResizeCb
  have "filter (\<lambda>u. tid u \<noteq> tid t) (pending ResizeCb s) = []"
    using pending_resize_single [OF assms ResizeCb] by simp
  then show ?thesis
    using ResizeCb by (simp add: pending_def remove_timer_fields conj_commute)
next
  case StepCb
  have "filter (\<lambda>u. tid u \<noteq> tid t) (pending StepCb s) = []"
    using pending_step_single [OF assms StepCb] by simp
  then show ?thesis
    using StepCb by (simp add: pending_def remove_timer_fields conj_commute)
qed


lemmas run_defs =
  constructor_def onload_def initEvents_def render_def setCanvasSize_def Let_def on_enter_def
  animatePixels_def setTimeout_def fire_def remove_timer_def step_timer_def resize_timer_def
  on_resize_def clearTimeout_def on_enter_bottom_def length_pxFactorValues render_draw_index
  render_draw_ratio

lemmas draw_defs =
  render_draw_def factor_at_def pxFactorValues_def floor_eq_iff floor_numeral_div

section \<open>A step timer that outlives a resize\<close>

lemma staleD:
  "stale t s \<Longrightarrow> u \<in> set (timers s) \<Longrightarrow> tid u = tid t \<Longrightarrow>
   u = t \<and> pxIndex s = length pxFactorValues - 1"
  unfolding stale_def by blast

lemma stale_lt: "stale t s \<Longrightarrow> tid t < nextId s"
  unfolding stale_def by blast

lemma stale_same:
  assumes "stale t s" and "set (timers s') \<subseteq> set (timers s)"
    and "nextId s' = nextId s" and "pxIndex s' = pxIndex s"
  shows "stale t s'"
  using assms unfolding stale_def by (metis subsetD)

lemma stale_reset:
  assumes "stale t s" and "set (timers s') \<subseteq> set (timers s)"
    and "nextId s' = nextId s" and "pxIndex s' = length pxFactorValues - 1"
  shows "stale t s'"
  using assms unfolding stale_def by (metis subsetD)

lemma stale_gone:
  assumes "tid t < nextId s" and "\<forall>u \<in> set (timers s'). tid u \<noteq> tid t"
    and "nextId s \<le> nextId s'"
  shows "stale t s'"
proof -
  from assms(1,3) have "tid t < nextId s'" by arith
  with assms(2) show ?thesis unfolding stale_def by blast
qed

lemma stale_on_resize:
  assumes "stale t s"
  shows "stale t (on_resize s)"
proof -
  have lt: "tid t < nextId s"
    using assms by (rule stale_lt)
  have "u = t \<and> pxIndex (on_resize s) = length pxFactorValues - 1"
    if "u \<in> set (timers (on_resize s))" and "tid u = tid t" for u
  proof -
    from that(1) have "u \<in> set (timers s) \<or> tid u = nextId s"
      by (auto simp: on_resize_fields)
    with that(2) lt have "u \<in> set (timers s)"
      by auto
    from staleD [OF assms this that(2)] show ?thesis
      by (simp add: on_resize_fields)
  qed
  moreover have "tid t < nextId (on_resize s)"
    using lt by (simp add: on_resize_fields)
  ultimately show ?thesis
    unfolding stale_def by blast
qed

lemma stale_on_enter:
  assumes "inv s" and "cb t = StepCb" and "stale t s" and "\<not> enterFired s"
  shows "stale t (on_enter (s\<lparr>enterFired := True\<rparr>))"
proof (rule stale_gone [of t s])
  show "tid t < nextId s"
    using assms(3) by (rule stale_lt)
  show "nextId s \<le> nextId (on_enter (s\<lparr>enterFired := True\<rparr>))"
    by (simp add: on_enter_fields)
  have nostep: "\<forall>u \<in> set (timers s). cb u \<noteq> StepCb"
    using assms(1,4) by (auto simp: inv_def inv_seq_def)
  show "\<forall>u \<in> set (timers (on_enter (s\<lparr>enterFired := True\<rparr>))). tid u \<noteq> tid t"
  proof
    fix u
    assume "u \<in> set (timers (on_enter (s\<lparr>enterFired := True\<rparr>)))"
    then consider "u \<in> set (timers s)" | "tid u = nextId s"
      by (auto simp: on_enter_fields)
    then show "tid u \<noteq> tid t"
    proof cases
      case 1
      show ?thesis
      proof
        assume "tid u = tid t"
        from staleD [OF assms(3) 1 this] have "u = t" by blast
        with 1 nostep assms(2) show False by blast
      qed
    next
      case 2
      with stale_lt [OF assms(3)] show ?thesis by simp
    qed
  qed
qed

lemma stale_step_timer:
  assumes "inv s" and "cb t = StepCb" and "stale t s"
    and "v \<in> set (timers s)" and "cb v = StepCb"
  shows "stale t (step_timer (remove_timer (tid v) s))"
proof (rule stale_gone [of t s])
  let ?s1 = "remove_timer (tid v) s"
  show "tid t < nextId s"
    using assms(3) by (rule stale_lt)
  have os: "one_step (timers s)"
    using assms(1) by (simp add: inv_def inv_seq_def)
  have old: "tid u \<noteq> tid t" if "u \<in> set (timers ?s1)" for u
  proof
    assume e: "tid u = tid t"
    from that have u: "u \<in> set (timers s)" "tid u \<noteq> tid v"
      by (simp_all add: remove_timer_fields)
    from staleD [OF assms(3) u(1) e] have "u = t" by blast
    with u(1) assms(2,4,5) os have "tid u = tid v"
      unfolding one_step_def by blast
    with u(2) show False by simp
  qed
  show "nextId s \<le> nextId (step_timer ?s1)"
    by (cases "pxIndex ?s1 + 1 < length pxFactorValues")
      (simp_all add: step_timer_go step_timer_stop remove_timer_fields)
  show "\<forall>u \<in> set (timers (step_timer ?s1)). tid u \<noteq> tid t"
  proof (cases "pxIndex ?s1 + 1 < length pxFactorValues")
    case True
    show ?thesis
    proof
      fix u
      assume "u \<in> set (timers (step_timer ?s1))"
      then consider "u \<in> set (timers ?s1)" | "tid u = nextId s"
        by (auto simp: step_timer_go [OF True] remove_timer_fields)
      then show "tid u \<noteq> tid t"
      proof cases
        case 1
        then show ?thesis by (rule old)
      next
        case 2
        with stale_lt [OF assms(3)] show ?thesis by simp
      qed
    qed
  next
    case False
    then have "timers (step_timer ?s1) = timers ?s1"
      by (simp add: step_timer_stop)
    with old show ?thesis by simp
  qed
qed

lemma stale_fire:
  assumes "inv s" and "cb t = StepCb" and "stale t s" and "fire i s = Some s'"
  shows "stale t s'"
proof -
  from fire_SomeD [OF assms(4)] obtain v where v: "v \<in> set (timers s)" "tid v = i"
    and s': "s' = (case cb v of
                     ResizeCb \<Rightarrow> resize_timer (remove_timer i s)
                   | StepCb \<Rightarrow> step_timer (remove_timer i s))"
    by blast
  show ?thesis
  proof (cases "cb v")
    case ResizeCb
    then have "s' = resize_timer (remove_timer i s)"
      using s' by simp
    moreover have "stale t (resize_timer (remove_timer i s))"
      using assms(3)
      by (rule stale_reset) (auto simp: resize_timer_fields remove_timer_fields)
    ultimately show ?thesis by simp
  next
    case StepCb
    then have "s' = step_timer (remove_timer (tid v) s)"
      using s' v(2) by simp
    with stale_step_timer [OF assms(1-3) v(1) StepCb] show ?thesis by simp
  qed
qed

lemma stale_step:
  assumes "inv s" and "cb t = StepCb" and "stale t s" and "step e s = Some s'"
  shows "stale t s'"
proof (cases e)
  case (Load iw ih)
  with assms(4) have "s' = onload iw ih s" by (simp split: if_splits)
  moreover have "stale t (onload iw ih s)"
    using assms(3) by (rule stale_same) (simp_all add: onload_fields)
  ultimately show ?thesis by simp
next
  case LoadError
  with assms(4) have "s' = s\<lparr>status := Failed\<rparr>" by (simp split: if_splits)
  moreover have "stale t (s\<lparr>status := Failed\<rparr>)"
    using assms(3) by (rule stale_same) simp_all
  ultimately show ?thesis by simp
next
  case WindowResize
  with assms(3,4) stale_on_resize show ?thesis by (auto split: if_splits)
next
  case (Layout w h)
  with assms(4) have "s' = s\<lparr>wrapW := w, wrapH := h\<rparr>" by simp
  moreover have "stale t (s\<lparr>wrapW := w, wrapH := h\<rparr>)"
    using assms(3) by (rule stale_same) simp_all
  ultimately show ?thesis by simp
next
  case ReachTop
  with assms stale_on_enter show ?thesis by (auto split: if_splits)
next
  case ReachBottom
  show ?thesis
  proof (cases "BottomTrigger \<in> set (bindings s) \<and> \<not> bottomFired s")
    case True
    with ReachBottom assms(4) have "s' = on_enter_bottom (s\<lparr>bottomFired := True\<rparr>)" by simp
    moreover have "stale t (on_enter_bottom (s\<lparr>bottomFired := True\<rparr>))"
      using assms(3) by (rule stale_same) (simp_all add: on_enter_bottom_def)
    ultimately show ?thesis by simp
  next
    case False
    with ReachBottom assms(3,4) show ?thesis by auto
  qed
next
  case (Elapse n)
  with assms(4) have "s' = s\<lparr>clock := clock s + n\<rparr>" by simp
  moreover have "stale t (s\<lparr>clock := clock s + n\<rparr>)"
    using assms(3) by (rule stale_same) simp_all
  ultimately show ?thesis by simp
next
  case (Fire i)
  with assms stale_fire show ?thesis by simp
qed

lemma stale_run:
  "inv s \<Longrightarrow> cb t = StepCb \<Longrightarrow> stale t s \<Longrightarrow> run es s = Some s' \<Longrightarrow> stale t s'"
proof (induction es arbitrary: s)
  case Nil
  then show ?case by simp
next
  case (Cons e es)
  from Cons.prems(4) obtain s1 where s1: "step e s = Some s1" "run es s1 = Some s'"
    by (auto split: option.splits)
  from inv_step [OF Cons.prems(1) s1(1)] stale_step [OF Cons.prems(1-3) s1(1)]
  show ?case
    using Cons.IH [OF _ Cons.prems(2) _ s1(2)] by blast
qed

section \<open>Cancelled timers, and step timers that stay pending\<close>

lemma armed_append: "armed (xs @ ys) = armed xs @ armed ys"
  by (induction xs rule: armed.induct) simp_all

lemma cancelled_append: "cancelled (xs @ ys) = cancelled xs @ cancelled ys"
  by (induction xs rule: cancelled.induct) simp_all

lemma trace_clearTimeout:
  "armed (trace (clearTimeout h s)) = armed (trace s)"
  "set (cancelled (trace (clearTimeout h s))) =
     set (cancelled (trace s)) \<union> {i. h = Some i \<and> i \<in> tid ` set (timers s)}"
  by (auto simp: clearTimeout_def armed_append cancelled_append split: option.splits)

lemma trace_on_resize:
  "armed (trace (on_resize s)) =
     armed (trace s) @ [\<lparr>tid = nextId s, due = clock s + 100, cb = ResizeCb\<rparr>]"
  "set (cancelled (trace (on_resize s))) =
     set (cancelled (trace s)) \<union> {i. resizeTimeout s = Some i \<and> i \<in> tid ` set (timers s)}"
  by (simp_all add: on_resize_def setTimeout_def Let_def armed_append cancelled_append
      trace_clearTimeout clearTimeout_fields)

lemma inv_cancel_keep:
  assumes "inv_cancel s" and "set (timers s') \<subseteq> set (timers s) \<union> set ts"
    and "armed (trace s') = armed (trace s) @ ts"
    and "cancelled (trace s') = cancelled (trace s)"
  shows "inv_cancel s'"
proof -
  have 1: "t \<in> set (armed (trace s'))" if "t \<in> set (timers s')" for t
  proof -
    from that assms(2) have "t \<in> set (timers s) \<or> t \<in> set ts" by blast
    with assms(1) have "t \<in> set (armed (trace s)) \<or> t \<in> set ts"
      unfolding inv_cancel_def by blast
    then show ?thesis
      unfolding assms(3) by simp
  qed
  have 2: "\<exists>u \<in> set (armed (trace s')). tid u = i \<and> cb u = ResizeCb"
    if "i \<in> set (cancelled (trace s'))" for i
  proof -
    from that have "i \<in> set (cancelled (trace s))"
      unfolding assms(4) .
    with assms(1) obtain u where "u \<in> set (armed (trace s))" "tid u = i" "cb u = ResizeCb"
      unfolding inv_cancel_def by blast
    then show ?thesis
      unfolding assms(3) by auto
  qed
  show ?thesis
    unfolding inv_cancel_def using 1 2 by blast
qed

lemma inv_cancel_on_resize:
  assumes "inv s" and "inv_cancel s"
  shows "inv_cancel (on_resize s)"
proof -
  let ?n = "\<lparr>tid = nextId s, due = clock s + 100, cb = ResizeCb\<rparr>"
  have rz: "rz_ok (resizeTimeout s) (nextId s) (timers s)"
    using assms(1) by (simp add: inv_def inv_rz_def)
  have 1: "t \<in> set (armed (trace (on_resize s)))" if "t \<in> set (timers (on_resize s))" for t
  proof -
    from that have "t \<in> set (timers s) \<or> t = ?n"
      by (auto simp: on_resize_fields)
    with assms(2) have "t \<in> set (armed (trace s)) \<or> t = ?n"
      unfolding inv_cancel_def by blast
    then show ?thesis
      by (auto simp: trace_on_resize)
  qed
  have 2: "\<exists>u \<in> set (armed (trace (on_resize s))). tid u = i \<and> cb u = ResizeCb"
    if "i \<in> set (cancelled (trace (on_resize s)))" for i
  proof -
    from that consider "i \<in> set (cancelled (trace s))"
      | "resizeTimeout s = Some i" "i \<in> tid ` set (timers s)"
      by (auto simp: trace_on_resize)
    then obtain u where "u \<in> set (armed (trace s))" "tid u = i" "cb u = ResizeCb"
    proof cases
      case 1
      with assms(2) that show ?thesis
        unfolding inv_cancel_def by blast
    next
      case 2
      then obtain u where u: "u \<in> set (timers s)" "tid u = i"
        by auto
      with 2(1) rz have "cb u = ResizeCb"
        unfolding rz_ok_def by blast
      moreover from u(1) assms(2) have "u \<in> set (armed (trace s))"
        unfolding inv_cancel_def by blast
      ultimately show ?thesis
        using u(2) that by blast
    qed
    then show ?thesis
      by (auto simp: trace_on_resize)
  qed
  show ?thesis
    unfolding inv_cancel_def using 1 2 by blast
qed

lemma inv_cancel_constructor: "inv_cancel (constructor cw ch)"
  by (simp add: inv_cancel_def constructor_def)

lemma inv_cancel_step_timer:
  assumes "inv_cancel s"
  shows "inv_cancel (step_timer (remove_timer i s))"
proof (cases "pxIndex (remove_timer i s) + 1 < length pxFactorValues")
  case True
  show ?thesis
    using assms
    by (rule inv_cancel_keep [where ts = "[\<lparr>tid = nextId s, due = clock s + 100, cb = StepCb\<rparr>]"])
      (auto simp: step_timer_go [OF True] remove_timer_fields armed_append cancelled_append)
next
  case False
  show ?thesis
    using assms
    by (rule inv_cancel_keep [where ts = "[]"])
      (auto simp: step_timer_stop [OF False] remove_timer_fields)
qed

lemma inv_cancel_fire:
  assumes "inv_cancel s" and "fire i s = Some s'"
  shows "inv_cancel s'"
proof -
  from fire_SomeD [OF assms(2)] obtain t where t: "t \<in> set (timers s)" "tid t = i" and
    s': "s' = (case cb t of
                 ResizeCb \<Rightarrow> resize_timer (remove_timer i s)
               | StepCb \<Rightarrow> step_timer (remove_timer i s))"
    by blast
  have "inv_cancel (resize_timer (remove_timer i s))"
    using assms(1)
    by (rule inv_cancel_keep [where ts = "[]"])
      (auto simp: resize_timer_fields remove_timer_fields armed_append cancelled_append)
  with inv_cancel_step_timer [OF assms(1), of i] s' show ?thesis
    by (cases "cb t") simp_all
qed

lemma inv_cancel_step:
  assumes "inv s" and "inv_cancel s" and "step e s = Some s'"
  shows "inv_cancel s'"
proof (cases e)
  case (Load iw ih)
  with assms(3) have "s' = onload iw ih s" by (simp split: if_splits)
  moreover have "inv_cancel (onload iw ih s)"
    using assms(2)
    by (rule inv_cancel_keep [where ts = "[]"])
      (auto simp: onload_fields armed_append cancelled_append)
  ultimately show ?thesis by simp
next
  case LoadError
  with assms(3) have "s' = s\<lparr>status := Failed\<rparr>" by (simp split: if_splits)
  moreover have "inv_cancel (s\<lparr>status := Failed\<rparr>)"
    using assms(2) by (rule inv_cancel_keep [where ts = "[]"]) simp_all
  ultimately show ?thesis by simp
next
  case WindowResize
  with assms inv_cancel_on_resize show ?thesis by (auto split: if_splits)
next
  case (Layout w h)
  with assms(3) have "s' = s\<lparr>wrapW := w, wrapH := h\<rparr>" by simp
  moreover have "inv_cancel (s\<lparr>wrapW := w, wrapH := h\<rparr>)"
    using assms(2) by (rule inv_cancel_keep [where ts = "[]"]) simp_all
  ultimately show ?thesis by simp
next
  case ReachTop
  show ?thesis
  proof (cases "EnterTrigger \<in> set (bindings s) \<and> \<not> enterFired s")
    case True
    with ReachTop assms(3) have "s' = on_enter (s\<lparr>enterFired := True\<rparr>)" by simp
    moreover have "inv_cancel (on_enter (s\<lparr>enterFired := True\<rparr>))"
      using assms(2)
      by (rule inv_cancel_keep [where ts = "[\<lparr>tid = nextId s, due = clock s + 100, cb = StepCb\<rparr>]"])
        (auto simp: on_enter_fields armed_append cancelled_append)
    ultimately show ?thesis by simp
  next
    case False
    with ReachTop assms(2,3) show ?thesis by auto
  qed
next
  case ReachBottom
  show ?thesis
  proof (cases "BottomTrigger \<in> set (bindings s) \<and> \<not> bottomFired s")
    case True
    with ReachBottom assms(3) have "s' = on_enter_bottom (s\<lparr>bottomFired := True\<rparr>)" by simp
    moreover have "inv_cancel (on_enter_bottom (s\<lparr>bottomFired := True\<rparr>))"
      using assms(2) by (rule inv_cancel_keep [where ts = "[]"]) (simp_all add: on_enter_bottom_def)
    ultimately show ?thesis by simp
  next
    case False
    with ReachBottom assms(2,3) show ?thesis by auto
  qed
next
  case (Elapse n)
  with assms(3) have "s' = s\<lparr>clock := clock s + n\<rparr>" by simp
  moreover have "inv_cancel (s\<lparr>clock := clock s + n\<rparr>)"
    using assms(2) by (rule inv_cancel_keep [where ts = "[]"]) simp_all
  ultimately show ?thesis by simp
next
  case (Fire i)
  with assms inv_cancel_fire show ?thesis by simp
qed

lemma inv_cancel_run: "inv s \<Longrightarrow> inv_cancel s \<Longrightarrow> run es s = Some s' \<Longrightarrow> inv_cancel s'"
proof (induction es arbitrary: s)
  case Nil
  then show ?case by simp
next
  case (Cons e es)
  from Cons.prems(3) obtain s1 where s1: "step e s = Some s1" "run es s1 = Some s'"
    by (auto split: option.splits)
  from inv_step [OF Cons.prems(1) s1(1)] inv_cancel_step [OF Cons.prems(1,2) s1(1)]
  show ?case
    using Cons.IH [OF _ _ s1(2)] by blast
qed

lemma inv_cancel_reachable: "run es (constructor cw ch) = Some s \<Longrightarrow> inv_cancel s"
  using inv_cancel_run [OF inv_constructor inv_cancel_constructor] .

lemma step_timer_kept:
  assumes "inv s" and "t \<in> set (timers s)" and "cb t = StepCb"
    and "step e s = Some s'" and "e \<noteq> Fire (tid t)"
  shows "t \<in> set (timers s')"
proof (cases e)
  case (Load iw ih)
  with assms(2,4) show ?thesis by (auto simp: onload_fields split: if_splits)
next
  case LoadError
  with assms(2,4) show ?thesis by (auto split: if_splits)
next
  case WindowResize
  have rz: "rz_ok (resizeTimeout s) (nextId s) (timers s)"
    using assms(1) by (simp add: inv_def inv_rz_def)
  have "Some (tid t) \<noteq> resizeTimeout s"
  proof
    assume "Some (tid t) = resizeTimeout s"
    then have "resizeTimeout s = Some (tid t)" by simp
    with rz assms(2) have "cb t = ResizeCb"
      unfolding rz_ok_def by blast
    with assms(3) show False by simp
  qed
  with assms(2) have "t \<in> set (timers (on_resize s))"
    by (simp add: on_resize_fields)
  with WindowResize assms(2,4) show ?thesis by (auto split: if_splits)
next
  case (Layout w h)
  with assms(2,4) show ?thesis by auto
next
  case ReachTop
  with assms(2,4) show ?thesis by (auto simp: on_enter_fields split: if_splits)
next
  case ReachBottom
  with assms(2,4) show ?thesis by (auto simp: on_enter_bottom_def split: if_splits)
next
  case (Elapse n)
  with assms(2,4) show ?thesis by auto
next
  case (Fire i)
  with assms(5) have ne: "tid t \<noteq> i" by auto
  from Fire assms(4) have "fire i s = Some s'" by simp
  from fire_SomeD [OF this] obtain v where v: "v \<in> set (timers s)" "tid v = i" and
    s': "s' = (case cb v of
                 ResizeCb \<Rightarrow> resize_timer (remove_timer i s)
               | StepCb \<Rightarrow> step_timer (remove_timer i s))"
    by blast
  have r: "t \<in> set (timers (remove_timer i s))"
    using assms(2) ne by (simp add: remove_timer_fields)
  then have "t \<in> set (timers (resize_timer (remove_timer i s)))"
    by (simp add: resize_timer_fields)
  moreover have "t \<in> set (timers (step_timer (remove_timer i s)))"
    using r
    by (cases "pxIndex (remove_timer i s) + 1 < length pxFactorValues")
      (simp_all add: step_timer_go step_timer_stop)
  ultimately show ?thesis
    using s' by (cases "cb v") simp_all
qed

lemma step_timer_kept_run:
  "inv s \<Longrightarrow> t \<in> set (timers s) \<Longrightarrow> cb t = StepCb \<Longrightarrow> run es s = Some s' \<Longrightarrow>
   Fire (tid t) \<notin> set es \<Longrightarrow> t \<in> set (timers s')"
proof (induction es arbitrary: s)
  case Nil
  then show ?case by simp
next
  case (Cons e es)
  from Cons.prems(4) obtain s1 where s1: "step e s = Some s1" "run es s1 = Some s'"
    by (auto split: option.splits)
  from Cons.prems(5) have ne: "e \<noteq> Fire (tid t)" "Fire (tid t) \<notin> set es"
    by auto
  from inv_step [OF Cons.prems(1) s1(1)] step_timer_kept [OF Cons.prems(1-3) s1(1) ne(1)]
  show ?case
    using Cons.IH [OF _ _ Cons.prems(3) s1(2) ne(2)] by blast
qed

section \<open>The claims about the geometry\<close>

text \<open>
  C2, as the code has it. \<open>newY\<close> is never assigned after its initialiser, so the vertical
  offset is 0 for every surface and every ratio, and the horizontal offset is 0 too
  whenever the surface is wider than the image (\<open>w / h > imgRatio\<close>): at most one offset
  is non-zero, not exactly one. For a positive finite ratio \<open>q\<close> the adjusted dimension is
  \<open>Math.round\<close> of the binary64 quotient \<open>w / q\<close> (wide branch, \<open>newHeight\<close>) or product
  \<open>h * q\<close> (other branch, \<open>newWidth\<close>, with \<open>newX\<close> half of \<open>w - newWidth\<close>): when that
  number \<open>y\<close> is finite, the dimension is the integer \<open>\<lfloor>y + 1/2\<rfloor>\<close>, within 1/2 of \<open>y\<close>, and
  \<open>y\<close> is within one part in \<open>2^53\<close> (or \<open>2^-1075\<close>) of the exact quotient or product. A
  300 by 300 surface and a 2:1 image give \<open>newWidth = 600\<close> and \<open>newX = -150\<close>.
\<close>

theorem render_letterbox:
  "newY (render_draw w h ratio i) = Fin 0 \<and>
   (jgt (jdiv (Fin (of_nat w)) (Fin (of_nat h))) (to_number ratio) \<longrightarrow>
      newX (render_draw w h ratio i) = Fin 0) \<and>
   (0 < q \<and> jgt (jdiv (Fin (of_nat w)) (Fin (of_nat h))) (Fin q) \<longrightarrow>
      newWidth (render_draw w h (Some (Fin q)) i) = Fin (of_nat w) \<and>
      newHeight (render_draw w h (Some (Fin q)) i) = jround (jdiv (Fin (of_nat w)) (Fin q)) \<and>
      (jdiv (Fin (of_nat w)) (Fin q) = Fin y \<longrightarrow>
         newHeight (render_draw w h (Some (Fin q)) i) = Fin (of_int \<lfloor>y + 1 / 2\<rfloor>) \<and>
         \<bar>of_int \<lfloor>y + 1 / 2\<rfloor> - y\<bar> \<le> 1 / 2 \<and>
         \<bar>y - of_nat w / q\<bar> \<le> max (of_nat w / q / 2 ^ 53) (2 powi (- 1075)))) \<and>
   (0 < q \<and> \<not> jgt (jdiv (Fin (of_nat w)) (Fin (of_nat h))) (Fin q) \<longrightarrow>
      newHeight (render_draw w h (Some (Fin q)) i) = Fin (of_nat h) \<and>
      newWidth (render_draw w h (Some (Fin q)) i) = jround (jmul (Fin (of_nat h)) (Fin q)) \<and>
      (jmul (Fin (of_nat h)) (Fin q) = Fin y \<longrightarrow>
         newWidth (render_draw w h (Some (Fin q)) i) = Fin (of_int \<lfloor>y + 1 / 2\<rfloor>) \<and>
         \<bar>of_int \<lfloor>y + 1 / 2\<rfloor> - y\<bar> \<le> 1 / 2 \<and>
         \<bar>y - of_nat h * q\<bar> \<le> max (of_nat h * q / 2 ^ 53) (2 powi (- 1075)) \<and>
         newX (render_draw w h (Some (Fin q)) i) =
           jdiv (Fin (of_nat w - of_int \<lfloor>y + 1 / 2\<rfloor>)) (Fin 2))) \<and>
   newWidth (render_draw 300 300 (Some (Fin 2)) i) = Fin 600 \<and>
   newX (render_draw 300 300 (Some (Fin 2)) i) = Fin (- 150)"
proof -
  have wide: "newWidth (render_draw w h (Some (Fin q)) i) = Fin (of_nat w) \<and>
      newHeight (render_draw w h (Some (Fin q)) i) = jround (jdiv (Fin (of_nat w)) (Fin q)) \<and>
      (jdiv (Fin (of_nat w)) (Fin q) = Fin y \<longrightarrow>
         newHeight (render_draw w h (Some (Fin q)) i) = Fin (of_int \<lfloor>y + 1 / 2\<rfloor>) \<and>
         \<bar>of_int \<lfloor>y + 1 / 2\<rfloor> - y\<bar> \<le> 1 / 2 \<and>
         \<bar>y - of_nat w / q\<bar> \<le> max (of_nat w / q / 2 ^ 53) (2 powi (- 1075)))"
    if q: "0 < q" and b: "jgt (jdiv (Fin (of_nat w)) (Fin (of_nat h))) (Fin q)"
  proof -
    have d: "newWidth (render_draw w h (Some (Fin q)) i) = Fin (of_nat w)"
      "newHeight (render_draw w h (Some (Fin q)) i) = jround (jdiv (Fin (of_nat w)) (Fin q))"
      using render_draw_wide [of w h "Some (Fin q)" i] b by simp_all
    have "newHeight (render_draw w h (Some (Fin q)) i) = Fin (of_int \<lfloor>y + 1 / 2\<rfloor>) \<and>
        \<bar>of_int \<lfloor>y + 1 / 2\<rfloor> - y\<bar> \<le> 1 / 2 \<and>
        \<bar>y - of_nat w / q\<bar> \<le> max (of_nat w / q / 2 ^ 53) (2 powi (- 1075))"
      if y: "jdiv (Fin (of_nat w)) (Fin q) = Fin y"
    proof -
      from y q have "rnd64 (of_nat w / q) = Fin y"
        by simp
      from rnd64_close [OF this] q have "\<bar>y - of_nat w / q\<bar>
          \<le> max (of_nat w / q / 2 ^ 53) (2 powi (- 1075))"
        by simp
      with d(2) y round_near [of y] show ?thesis
        by simp
    qed
    with d show ?thesis by blast
  qed
  have tall: "newHeight (render_draw w h (Some (Fin q)) i) = Fin (of_nat h) \<and>
      newWidth (render_draw w h (Some (Fin q)) i) = jround (jmul (Fin (of_nat h)) (Fin q)) \<and>
      (jmul (Fin (of_nat h)) (Fin q) = Fin y \<longrightarrow>
         newWidth (render_draw w h (Some (Fin q)) i) = Fin (of_int \<lfloor>y + 1 / 2\<rfloor>) \<and>
         \<bar>of_int \<lfloor>y + 1 / 2\<rfloor> - y\<bar> \<le> 1 / 2 \<and>
         \<bar>y - of_nat h * q\<bar> \<le> max (of_nat h * q / 2 ^ 53) (2 powi (- 1075)) \<and>
         newX (render_draw w h (Some (Fin q)) i) =
           jdiv (Fin (of_nat w - of_int \<lfloor>y + 1 / 2\<rfloor>)) (Fin 2))"
    if q: "0 < q" and b: "\<not> jgt (jdiv (Fin (of_nat w)) (Fin (of_nat h))) (Fin q)"
  proof -
    have d: "newHeight (render_draw w h (Some (Fin q)) i) = Fin (of_nat h)"
      "newWidth (render_draw w h (Some (Fin q)) i) = jround (jmul (Fin (of_nat h)) (Fin q))"
      "newX (render_draw w h (Some (Fin q)) i) =
         jdiv (jsub (Fin (of_nat w)) (jround (jmul (Fin (of_nat h)) (Fin q)))) (Fin 2)"
      using render_draw_tall [of w h "Some (Fin q)" i] b by simp_all
    have "newWidth (render_draw w h (Some (Fin q)) i) = Fin (of_int \<lfloor>y + 1 / 2\<rfloor>) \<and>
        \<bar>of_int \<lfloor>y + 1 / 2\<rfloor> - y\<bar> \<le> 1 / 2 \<and>
        \<bar>y - of_nat h * q\<bar> \<le> max (of_nat h * q / 2 ^ 53) (2 powi (- 1075)) \<and>
        newX (render_draw w h (Some (Fin q)) i) =
          jdiv (Fin (of_nat w - of_int \<lfloor>y + 1 / 2\<rfloor>)) (Fin 2)"
      if y: "jmul (Fin (of_nat h)) (Fin q) = Fin y"
    proof -
      from y have "rnd64 (of_nat h * q) = Fin y"
        by simp
      from rnd64_close [OF this] q have c: "\<bar>y - of_nat h * q\<bar>
          \<le> max (of_nat h * q / 2 ^ 53) (2 powi (- 1075))"
        by simp
      have "of_nat w - of_int \<lfloor>y + 1 / 2\<rfloor> = (of_int (int w - \<lfloor>y + 1 / 2\<rfloor>) :: rat)"
        by simp
      then have "jsub (Fin (of_nat w)) (Fin (of_int \<lfloor>y + 1 / 2\<rfloor>)) =
          Fin (of_nat w - of_int \<lfloor>y + 1 / 2\<rfloor>)"
        by (simp only: jsub.simps rnd64_of_int)
      with d(2,3) y c round_near [of y] show ?thesis
        by simp
    qed
    with d(1,2) show ?thesis by blast
  qed
  have sq: "\<not> jgt (jdiv (Fin (of_nat 300)) (Fin (of_nat 300))) (to_number (Some (Fin 2)))"
    by simp
  have ex: "newWidth (render_draw 300 300 (Some (Fin 2)) i) = Fin 600 \<and>
      newX (render_draw 300 300 (Some (Fin 2)) i) = Fin (- 150)"
    using render_draw_tall [OF sq, of i] by (simp add: floor_numeral_div)
  show ?thesis
    using render_draw_newY [of w h ratio i] render_draw_wide [of w h ratio i] wide tall ex
    by blast
qed

theorem render_letterbox_witness:
  "newY (render_draw 400 100 (Some (Fin 2)) 0) = Fin 0 \<and>
   newX (render_draw 400 100 (Some (Fin 2)) 0) = Fin 0 \<and>
   newHeight (render_draw 400 100 (Some (Fin 2)) 0) = Fin 200 \<and>
   newWidth (render_draw 100 737 (Some (jdiv (Fin 300) (Fin 2200))) 0) = Fin 100 \<and>
   newX (render_draw 100 737 (Some (jdiv (Fin 300) (Fin 2200))) 0) = Fin 0"
proof -
  let ?q = "1228254443828317 / 9007199254740992 :: rat"
  let ?y = "7072058789855231 / 70368744177664 :: rat"
  have a: "(0::rat) < 2 \<and> jgt (jdiv (Fin (of_nat 400)) (Fin (of_nat 100))) (Fin 2)"
    "jdiv (Fin (of_nat 400)) (Fin 2) = Fin 200"
    by simp_all
  have a': "jgt (jdiv (Fin (of_nat 400)) (Fin (of_nat 100))) (to_number (Some (Fin 2)))"
    by simp
  have b: "0 < ?q \<and> \<not> jgt (jdiv (Fin (of_nat 100)) (Fin (of_nat 737))) (Fin ?q)"
    "jmul (Fin (of_nat 737)) (Fin ?q) = Fin ?y"
    using jdiv_100_737 jmul_737_ratio by simp_all
  have fl: "\<lfloor>?y + 1 / 2\<rfloor> = 100"
    by (simp add: floor_eq_iff)
  from render_letterbox [of 400 100 "Some (Fin 2)" 0 2 200] a a'
  have w: "newY (render_draw 400 100 (Some (Fin 2)) 0) = Fin 0"
    "newX (render_draw 400 100 (Some (Fin 2)) 0) = Fin 0"
    "newHeight (render_draw 400 100 (Some (Fin 2)) 0) = Fin 200"
    by (simp_all add: floor_eq_iff)
  from render_letterbox [of 100 737 "Some (Fin ?q)" 0 ?q ?y] b
  have "newWidth (render_draw 100 737 (Some (Fin ?q)) 0) = Fin (of_int \<lfloor>?y + 1 / 2\<rfloor>)"
    "newX (render_draw 100 737 (Some (Fin ?q)) 0) =
       jdiv (Fin (of_nat 100 - of_int \<lfloor>?y + 1 / 2\<rfloor>)) (Fin 2)"
    by blast+
  then have t: "newWidth (render_draw 100 737 (Some (Fin ?q)) 0) = Fin 100"
    "newX (render_draw 100 737 (Some (Fin ?q)) 0) = Fin 0"
    unfolding fl by simp_all
  show ?thesis
    using w t unfolding jdiv_300_2200 by blast
qed

text \<open>
  C2 as stated fails on a 400 by 200 surface with a 400 by 200 image (ratio 2): the
  comparison \<open>2 > 2\<close> is false, \<open>newWidth = round (200 * 2) = 400\<close> and both offsets are 0.
\<close>

theorem render_both_offsets_zero:
  "newX (render_draw 400 200 (Some (jdiv (Fin 400) (Fin 200))) 4) = Fin 0 \<and>
   newY (render_draw 400 200 (Some (jdiv (Fin 400) (Fin 200))) 4) = Fin 0"
  by (simp add: draw_defs Let_def)

text \<open>
  C4, as the code has it. At the last index the scale is 1.0 and the reduced draw size is
  the surface size itself, \<open>scaledW = w\<close> and \<open>scaledH = h\<close>, for every surface and ratio.
  The target rectangle keeps one surface dimension only (\<open>newWidth = w\<close> in the wide
  branch, \<open>newHeight = h\<close> in the other); its other dimension is \<open>round (w / imgRatio)\<close> or
  \<open>round (h * imgRatio)\<close>, which is the surface's only when the two aspect ratios agree.
\<close>

theorem render_full_scale:
  "scaledW (render_draw w h ratio (length pxFactorValues - 1)) = Fin (of_nat w) \<and>
   scaledH (render_draw w h ratio (length pxFactorValues - 1)) = Fin (of_nat h) \<and>
   (if jgt (jdiv (Fin (of_nat w)) (Fin (of_nat h))) (to_number ratio)
    then newWidth (render_draw w h ratio (length pxFactorValues - 1)) = Fin (of_nat w) \<and>
         newHeight (render_draw w h ratio (length pxFactorValues - 1)) =
           jround (jdiv (Fin (of_nat w)) (to_number ratio))
    else newHeight (render_draw w h ratio (length pxFactorValues - 1)) = Fin (of_nat h) \<and>
         newWidth (render_draw w h ratio (length pxFactorValues - 1)) =
           jround (jmul (Fin (of_nat h)) (to_number ratio)))"
  using factor_at_last by (simp add: render_draw_def Let_def)

theorem render_full_scale_witness:
  "scaledW (render_draw 400 200 (Some (Fin 2)) 4) = Fin 400 \<and>
   scaledH (render_draw 400 200 (Some (Fin 2)) 4) = Fin 200 \<and>
   newWidth (render_draw 400 200 (Some (Fin 2)) 4) = Fin 400 \<and>
   newHeight (render_draw 400 200 (Some (Fin 2)) 4) = Fin 200"
proof -
  have l: "length pxFactorValues - 1 = 4"
    by (simp add: length_pxFactorValues)
  show ?thesis
    using render_full_scale [of 400 200 "Some (Fin 2)"] unfolding l
    by (simp add: floor_eq_iff)
qed

text \<open>
  C4 as stated fails on a 300 by 300 surface with a 2:1 image: the reduced draw is 300
  wide and the target rectangle 600 wide.
\<close>

theorem render_full_scale_differs:
  "scaledW (render_draw 300 300 (Some (Fin 2)) 4) = Fin 300 \<and>
   scaledH (render_draw 300 300 (Some (Fin 2)) 4) = Fin 300 \<and>
   newWidth (render_draw 300 300 (Some (Fin 2)) 4) = Fin 600 \<and>
   newHeight (render_draw 300 300 (Some (Fin 2)) 4) = Fin 300"
  by (simp add: draw_defs Let_def)

section \<open>The claims about the event loop\<close>




text \<open>
  C3, as the code has it. \<open>animatePixels\<close> at the last valid index (\<open>pxIndex + 1\<close> equal to
  the sequence length) renders and then arms one more timer. When a step timer fires at
  that index, \<open>pxIndex\<close> becomes the sequence length and nothing else changes: no
  render and no further timer.
\<close>

theorem last_index_arms_one_more_timer:
  assumes "pxIndex s + 1 = length pxFactorValues"
  shows "trace (animatePixels s) =
           trace s @ [Rendered (render_draw (canvasW s) (canvasH s) (imgRatio s) (pxIndex s)),
                      Armed \<lparr>tid = nextId s, due = clock s + 100, cb = StepCb\<rparr>] \<and>
         timers (animatePixels s) =
           timers s @ [\<lparr>tid = nextId s, due = clock s + 100, cb = StepCb\<rparr>] \<and>
         step_timer s = s\<lparr>pxIndex := length pxFactorValues\<rparr>"
proof -
  from assms have "pxIndex s < length pxFactorValues" by simp
  from animatePixels_go(1,2) [OF this] step_timer_stop [of s] assms show ?thesis
    by simp
qed

theorem last_index_arms_one_more_timer_witness:
  "pxIndex ((constructor 400 200)\<lparr>pxIndex := 4\<rparr>) + 1 = length pxFactorValues \<and>
   timers (animatePixels ((constructor 400 200)\<lparr>pxIndex := 4\<rparr>)) =
     [\<lparr>tid = 1, due = 100, cb = StepCb\<rparr>] \<and>
   pxIndex (step_timer ((constructor 400 200)\<lparr>pxIndex := 4\<rparr>)) = 5"
proof -
  have h: "pxIndex ((constructor 400 200)\<lparr>pxIndex := 4\<rparr>) + 1 = length pxFactorValues"
    by (simp add: length_pxFactorValues)
  show ?thesis
    using h last_index_arms_one_more_timer [OF h]
    by (simp add: constructor_def length_pxFactorValues)
qed

text \<open>
  C3 as stated fails on the full reveal: after the render at index 4 a step timer (id 5,
  due at 500) is pending.
\<close>

theorem timer_armed_after_last_render:
  "map_option pxIndex
     (run [Load 400 200, ReachTop, Elapse 100, Fire 1, Elapse 100, Fire 2, Elapse 100, Fire 3,
           Elapse 100, Fire 4] (constructor 400 200)) = Some 4 \<and>
   map_option (map d_index \<circ> renders \<circ> trace)
     (run [Load 400 200, ReachTop, Elapse 100, Fire 1, Elapse 100, Fire 2, Elapse 100, Fire 3,
           Elapse 100, Fire 4] (constructor 400 200)) = Some [0, 0, 1, 2, 3, 4] \<and>
   map_option timers
     (run [Load 400 200, ReachTop, Elapse 100, Fire 1, Elapse 100, Fire 2, Elapse 100, Fire 3,
           Elapse 100, Fire 4] (constructor 400 200)) = Some [\<lparr>tid = 5, due = 500, cb = StepCb\<rparr>]"
  by (simp add: run_defs)

text \<open>
  C6. In every reachable state \<open>pxIndex\<close> is at most the length of \<open>pxFactorValues\<close>, and
  every render used an index below it. The constructor and the viewport entry set the
  index to 0, the resize timer to the length minus 1, and a step timer adds 1, which it
  can only do while the index is below the length.
\<close>

theorem pxIndex_bounded:
  assumes "run es (constructor cw ch) = Some s"
  shows "pxIndex s \<le> length pxFactorValues \<and>
         (\<forall>d \<in> set (renders (trace s)). d_index d < length pxFactorValues) \<and>
         pxIndex (constructor cw ch) = 0 \<and>
         pxIndex (on_enter s) = 0 \<and>
         pxIndex (resize_timer s) = length pxFactorValues - 1 \<and>
         pxIndex (step_timer s) = pxIndex s + 1 \<and>
         (\<forall>t \<in> set (timers s). cb t = StepCb \<longrightarrow> pxIndex s + 1 \<le> length pxFactorValues)"
proof -
  have i: "inv_seq s" "inv_log s"
    using inv_reachable [OF assms] by (simp_all add: inv_def)
  have "pxIndex (step_timer s) = pxIndex s + 1"
    by (cases "pxIndex s + 1 < length pxFactorValues")
      (simp_all add: step_timer_go step_timer_stop)
  moreover have "\<forall>t \<in> set (timers s). cb t = StepCb \<longrightarrow> pxIndex s + 1 \<le> length pxFactorValues"
    using i(1) by (auto simp: inv_seq_def)
  moreover have "pxIndex s \<le> length pxFactorValues"
    using i(1) by (simp add: inv_seq_def)
  moreover have "\<forall>d \<in> set (renders (trace s)). d_index d < length pxFactorValues"
    using i(2) by (simp add: inv_log_def)
  ultimately show ?thesis
    by (simp add: on_enter_fields resize_timer_fields constructor_def)
qed


theorem pxIndex_bounded_witness:
  "map_option pxIndex
     (run [Load 400 200, ReachTop, Elapse 100, Fire 1, Elapse 100, Fire 2, Elapse 100, Fire 3,
           Elapse 100, Fire 4, Elapse 100, Fire 5, WindowResize, Elapse 100, Fire 6]
        (constructor 400 200)) = Some 4 \<and>
   map_option pxIndex
     (run [Load 400 200, ReachTop, Elapse 100, Fire 1, Elapse 100, Fire 2, Elapse 100, Fire 3,
           Elapse 100, Fire 4, Elapse 100, Fire 5] (constructor 400 200)) = Some 5 \<and>
   (5::nat) \<le> length pxFactorValues"
proof -
  let ?es = "[Load 400 200, ReachTop, Elapse 100, Fire 1, Elapse 100, Fire 2, Elapse 100, Fire 3,
           Elapse 100, Fire 4, Elapse 100, Fire 5]"
  have a: "map_option pxIndex (run ?es (constructor 400 200)) = Some 5"
    by (simp add: run_defs)
  then obtain s where r: "run ?es (constructor 400 200) = Some s" and p: "pxIndex s = 5"
    by blast
  have b: "map_option pxIndex
     (run (?es @ [WindowResize, Elapse 100, Fire 6]) (constructor 400 200)) = Some 4"
    by (simp add: run_defs)
  show ?thesis
    using pxIndex_bounded [OF r] p a b by simp
qed

text \<open>
  C9. Until the image has loaded nothing has been rendered, no timer is pending and no
  listener or trigger is registered; so every render in the trace of a reachable state
  read a defined \<open>imgRatio\<close>.
\<close>

theorem render_only_after_load:
  assumes "run es (constructor cw ch) = Some s"
  shows "(status s \<noteq> Loaded \<longrightarrow> trace s = [] \<and> timers s = [] \<and> bindings s = []) \<and>
         (\<forall>d \<in> set (renders (trace s)). d_ratio d \<noteq> None) \<and>
         (trace s \<noteq> [] \<longrightarrow> status s = Loaded \<and> imgRatio s \<noteq> None)"
proof -
  have i: "inv_load s" "inv_log s"
    using inv_reachable [OF assms] by (simp_all add: inv_def)
  have "status s \<noteq> Loaded \<longrightarrow> trace s = [] \<and> timers s = [] \<and> bindings s = []"
    using i(1) by (simp add: inv_load_def)
  moreover have "\<forall>d \<in> set (renders (trace s)). d_ratio d \<noteq> None"
    using i(2) by (simp add: inv_log_def)
  moreover have "trace s \<noteq> [] \<longrightarrow> status s = Loaded \<and> imgRatio s \<noteq> None"
    using i(1) unfolding inv_load_def by blast
  ultimately show ?thesis by blast
qed

theorem render_only_after_load_witness:
  "map_option trace
     (run [WindowResize, ReachTop, Layout 300 300, LoadError, Elapse 500, WindowResize, ReachTop]
        (constructor 400 200)) = Some [] \<and>
   map_option (map d_ratio \<circ> renders \<circ> trace)
     (run [WindowResize, ReachTop, Load 400 200, ReachTop] (constructor 400 200)) =
     Some [Some (Fin 2), Some (Fin 2)]"
proof -
  let ?es = "[WindowResize, ReachTop, Layout 300 300, LoadError, Elapse 500, WindowResize, ReachTop]"
  have "map_option status (run ?es (constructor 400 200)) = Some Failed"
    by (simp add: run_defs)
  then obtain s where r: "run ?es (constructor 400 200) = Some s" and p: "status s = Failed"
    by blast
  from render_only_after_load [OF r] p have "trace s = []"
    by simp
  with r have a: "map_option trace (run ?es (constructor 400 200)) = Some []"
    by simp
  let ?es' = "[WindowResize, ReachTop, Load 400 200, ReachTop]"
  have b: "map_option (map d_ratio \<circ> renders \<circ> trace) (run ?es' (constructor 400 200)) =
     Some [Some (Fin 2), Some (Fin 2)]"
    by (simp add: run_defs)
  show ?thesis
    using a b by simp
qed

text \<open>
  C10. \<open>DOM.inner\<close> is null after the constructor and in every reachable state, so the
  parallax timeline is never registered: the bindings are the resize listener and the
  two scroll triggers once the image has loaded, and none before.
\<close>

theorem parallax_never_registered:
  assumes "run es (constructor cw ch) = Some s"
  shows "dom_inner (constructor cw ch) = None \<and> dom_inner s = None \<and>
         ParallaxTimeline \<notin> set (bindings s) \<and>
         bindings s = (if status s = Loaded then [ResizeListener, EnterTrigger, BottomTrigger] else [])"
proof -
  have "inv_load s"
    using inv_reachable [OF assms] by (simp add: inv_def)
  then show ?thesis
    by (auto simp: inv_load_def constructor_def)
qed

theorem parallax_never_registered_witness:
  "map_option bindings (run [Load 400 200, ReachBottom, ReachTop, WindowResize] (constructor 400 200)) =
     Some [ResizeListener, EnterTrigger, BottomTrigger] \<and>
   map_option dom_inner (run [Load 400 200, ReachBottom, ReachTop, WindowResize] (constructor 400 200)) =
     Some None"
proof -
  let ?es = "[Load 400 200, ReachBottom, ReachTop, WindowResize]"
  have "map_option status (run ?es (constructor 400 200)) = Some Loaded"
    by (simp add: run_defs)
  then obtain s where r: "run ?es (constructor 400 200) = Some s" and p: "status s = Loaded"
    by blast
  from parallax_never_registered [OF r] p
  have "bindings s = [ResizeListener, EnterTrigger, BottomTrigger]" "dom_inner s = None"
    by simp_all
  with r show ?thesis by simp
qed

text \<open>
  C5. In every reachable state: the first viewport entry sets \<open>pxIndex\<close> to 0, renders at
  index 0 and then arms one step timer (a later entry does nothing); each firing of a
  step timer adds exactly 1 to \<open>pxIndex\<close>, which stays at most the sequence length; below
  the length it renders at the new index and then arms the next timer; at the length it
  renders nothing and no step timer is pending.
\<close>

theorem sequencer_steps:
  assumes "run es (constructor cw ch) = Some s"
  shows "(EnterTrigger \<in> set (bindings s) \<and> \<not> enterFired s \<longrightarrow>
            step ReachTop s = Some (on_enter (s\<lparr>enterFired := True\<rparr>)) \<and>
            pxIndex (on_enter (s\<lparr>enterFired := True\<rparr>)) = 0 \<and>
            trace (on_enter (s\<lparr>enterFired := True\<rparr>)) =
              trace s @ [Rendered (render_draw (canvasW s) (canvasH s) (imgRatio s) 0),
                         Armed \<lparr>tid = nextId s, due = clock s + 100, cb = StepCb\<rparr>] \<and>
            pending StepCb (on_enter (s\<lparr>enterFired := True\<rparr>)) =
              [\<lparr>tid = nextId s, due = clock s + 100, cb = StepCb\<rparr>]) \<and>
         (enterFired s \<longrightarrow> step ReachTop s = Some s) \<and>
         (\<forall>t \<in> set (timers s). cb t = StepCb \<and> due t \<le> clock s \<longrightarrow>
            fire (tid t) s = Some (step_timer (remove_timer (tid t) s)) \<and>
            pxIndex (step_timer (remove_timer (tid t) s)) = pxIndex s + 1 \<and>
            pxIndex s + 1 \<le> length pxFactorValues \<and>
            (if pxIndex s + 1 < length pxFactorValues
             then trace (step_timer (remove_timer (tid t) s)) =
                    trace s @ [Rendered (render_draw (canvasW s) (canvasH s) (imgRatio s)
                                 (pxIndex s + 1)),
                               Armed \<lparr>tid = nextId s, due = clock s + 100, cb = StepCb\<rparr>] \<and>
                  pending StepCb (step_timer (remove_timer (tid t) s)) =
                    [\<lparr>tid = nextId s, due = clock s + 100, cb = StepCb\<rparr>]
             else trace (step_timer (remove_timer (tid t) s)) = trace s \<and>
                  pending StepCb (step_timer (remove_timer (tid t) s)) = []))"
proof -
  have i: "inv s"
    using inv_reachable [OF assms] .
  then have ids: "inv_ids s" and sq: "inv_seq s"
    by (simp_all add: inv_def)
  have enter: "step ReachTop s = Some (on_enter (s\<lparr>enterFired := True\<rparr>)) \<and>
      pxIndex (on_enter (s\<lparr>enterFired := True\<rparr>)) = 0 \<and>
      trace (on_enter (s\<lparr>enterFired := True\<rparr>)) =
        trace s @ [Rendered (render_draw (canvasW s) (canvasH s) (imgRatio s) 0),
                   Armed \<lparr>tid = nextId s, due = clock s + 100, cb = StepCb\<rparr>] \<and>
      pending StepCb (on_enter (s\<lparr>enterFired := True\<rparr>)) =
        [\<lparr>tid = nextId s, due = clock s + 100, cb = StepCb\<rparr>]"
    if "EnterTrigger \<in> set (bindings s) \<and> \<not> enterFired s"
  proof -
    have "\<forall>t \<in> set (timers s). cb t \<noteq> StepCb"
      using sq that by (auto simp: inv_seq_def)
    then have "filter (\<lambda>t. cb t = StepCb) (timers s) = []"
      by (simp add: filter_empty_conv)
    with that show ?thesis
      by (simp add: on_enter_fields pending_def)
  qed
  have again: "step ReachTop s = Some s" if "enterFired s"
    using that by simp
  have tick: "fire (tid t) s = Some (step_timer (remove_timer (tid t) s)) \<and>
      pxIndex (step_timer (remove_timer (tid t) s)) = pxIndex s + 1 \<and>
      pxIndex s + 1 \<le> length pxFactorValues \<and>
      (if pxIndex s + 1 < length pxFactorValues
       then trace (step_timer (remove_timer (tid t) s)) =
              trace s @ [Rendered (render_draw (canvasW s) (canvasH s) (imgRatio s)
                           (pxIndex s + 1)),
                         Armed \<lparr>tid = nextId s, due = clock s + 100, cb = StepCb\<rparr>] \<and>
            pending StepCb (step_timer (remove_timer (tid t) s)) =
              [\<lparr>tid = nextId s, due = clock s + 100, cb = StepCb\<rparr>]
       else trace (step_timer (remove_timer (tid t) s)) = trace s \<and>
            pending StepCb (step_timer (remove_timer (tid t) s)) = [])"
    if t: "t \<in> set (timers s)" and c: "cb t = StepCb" and d: "due t \<le> clock s" for t
  proof -
    let ?s1 = "remove_timer (tid t) s"
    have f: "fire (tid t) s = Some (step_timer ?s1)"
      using fire_pending [OF ids t] c d by simp
    have px: "pxIndex s < length pxFactorValues"
      using sq t c by (auto simp: inv_seq_def)
    have none: "pending StepCb ?s1 = []"
      using pending_none_after_remove [OF i t] c by simp
    show ?thesis
    proof (cases "pxIndex s + 1 < length pxFactorValues")
      case True
      then have go: "pxIndex ?s1 + 1 < length pxFactorValues"
        by (simp add: remove_timer_fields)
      have "pending StepCb (step_timer ?s1) =
          pending StepCb ?s1 @ [\<lparr>tid = nextId s, due = clock s + 100, cb = StepCb\<rparr>]"
        by (simp add: pending_def step_timer_go [OF go] remove_timer_fields)
      with none f px True show ?thesis
        by (simp add: step_timer_go [OF go] remove_timer_fields)
    next
      case False
      then have stop: "\<not> pxIndex ?s1 + 1 < length pxFactorValues"
        by (simp add: remove_timer_fields)
      have "pending StepCb (step_timer ?s1) = pending StepCb ?s1"
        by (simp add: pending_def step_timer_stop [OF stop])
      with none f px False show ?thesis
        by (simp add: step_timer_stop [OF stop] remove_timer_fields)
    qed
  qed
  show ?thesis
    using enter again tick by blast
qed

theorem sequencer_steps_witness:
  "map_option pxIndex (run [Load 400 200, ReachTop] (constructor 400 200)) = Some 0 \<and>
   map_option (map d_index \<circ> renders \<circ> trace)
     (run [Load 400 200, ReachTop, Elapse 100, Fire 1] (constructor 400 200)) = Some [0, 0, 1] \<and>
   map_option pxIndex
     (run [Load 400 200, ReachTop, Elapse 100, Fire 1] (constructor 400 200)) = Some 1 \<and>
   map_option pxIndex
     (run [Load 400 200, ReachTop, Elapse 100, Fire 1, Elapse 100, Fire 2, Elapse 100, Fire 3,
           Elapse 100, Fire 4, Elapse 100, Fire 5] (constructor 400 200)) = Some 5 \<and>
   map_option timers
     (run [Load 400 200, ReachTop, Elapse 100, Fire 1, Elapse 100, Fire 2, Elapse 100, Fire 3,
           Elapse 100, Fire 4, Elapse 100, Fire 5] (constructor 400 200)) = Some []"
proof -
  let ?es = "[Load 400 200, ReachTop, Elapse 100]"
  let ?t = "\<lparr>tid = 1, due = 100, cb = StepCb\<rparr>"
  have "map_option timers (run ?es (constructor 400 200)) = Some [?t] \<and>
        map_option clock (run ?es (constructor 400 200)) = Some 100 \<and>
        map_option pxIndex (run ?es (constructor 400 200)) = Some 0"
    by (simp add: run_defs)
  then obtain s where r: "run ?es (constructor 400 200) = Some s"
    and s: "timers s = [?t]" "clock s = 100" "pxIndex s = 0"
    by auto
  have "?t \<in> set (timers s)" "cb ?t = StepCb \<and> due ?t \<le> clock s"
    using s by simp_all
  with sequencer_steps [OF r] s(3)
  have f: "fire (tid ?t) s = Some (step_timer (remove_timer (tid ?t) s))"
    and p: "pxIndex (step_timer (remove_timer (tid ?t) s)) = 1"
    by (metis, metis One_nat_def add.commute plus_1_eq_Suc)
  have e: "[Load 400 200, ReachTop, Elapse 100, Fire 1] = ?es @ [Fire 1]"
    by simp
  have "run [Load 400 200, ReachTop, Elapse 100, Fire 1] (constructor 400 200) =
      Some (step_timer (remove_timer 1 s))"
    unfolding e run_append r using f by simp
  with p have a: "map_option pxIndex
      (run [Load 400 200, ReachTop, Elapse 100, Fire 1] (constructor 400 200)) = Some 1"
    by simp
  have b: "map_option (map d_index \<circ> renders \<circ> trace)
     (run [Load 400 200, ReachTop, Elapse 100, Fire 1] (constructor 400 200)) = Some [0, 0, 1]"
    by (simp add: run_defs)
  have c: "map_option pxIndex
     (run [Load 400 200, ReachTop, Elapse 100, Fire 1, Elapse 100, Fire 2, Elapse 100, Fire 3,
           Elapse 100, Fire 4, Elapse 100, Fire 5] (constructor 400 200)) = Some 5 \<and>
   map_option timers
     (run [Load 400 200, ReachTop, Elapse 100, Fire 1, Elapse 100, Fire 2, Elapse 100, Fire 3,
           Elapse 100, Fire 4, Elapse 100, Fire 5] (constructor 400 200)) = Some []"
    by (simp add: run_defs)
  have "map_option bindings (run [Load 400 200] (constructor 400 200)) =
        Some [ResizeListener, EnterTrigger, BottomTrigger] \<and>
      map_option enterFired (run [Load 400 200] (constructor 400 200)) = Some False"
    by (simp add: run_defs)
  then obtain s0 where r0: "run [Load 400 200] (constructor 400 200) = Some s0"
    and s0: "bindings s0 = [ResizeListener, EnterTrigger, BottomTrigger]" "\<not> enterFired s0"
    by auto
  have "EnterTrigger \<in> set (bindings s0) \<and> \<not> enterFired s0"
    using s0 by simp
  with sequencer_steps [OF r0]
  have f0: "step ReachTop s0 = Some (on_enter (s0\<lparr>enterFired := True\<rparr>))"
    and p0: "pxIndex (on_enter (s0\<lparr>enterFired := True\<rparr>)) = 0"
    by blast+
  have e0: "[Load 400 200, ReachTop] = [Load 400 200] @ [ReachTop]"
    by simp
  have "run [Load 400 200, ReachTop] (constructor 400 200) =
      Some (on_enter (s0\<lparr>enterFired := True\<rparr>))"
    unfolding e0 run_append r0 using f0 by simp
  with p0 have d: "map_option pxIndex (run [Load 400 200, ReachTop] (constructor 400 200)) = Some 0"
    by simp
  show ?thesis
    using a b c d by blast
qed

text \<open>
  C7. In every reachable state: a \<open>resize\<close> event leaves exactly one resize timer pending,
  the new one, due 100 later (the previous one is cancelled), and renders nothing; a
  pending resize timer cannot fire before it is due, and when it fires the canvas takes
  the container's size, \<open>pxIndex\<close> becomes the length minus 1, and the trace grows by exactly
  one render, at that size and index.
\<close>

theorem resize_debounce:
  assumes "run es (constructor cw ch) = Some s"
  shows "(ResizeListener \<in> set (bindings s) \<longrightarrow>
            step WindowResize s = Some (on_resize s) \<and>
            pending ResizeCb (on_resize s) =
              [\<lparr>tid = nextId s, due = clock s + 100, cb = ResizeCb\<rparr>] \<and>
            renders (trace (on_resize s)) = renders (trace s) \<and>
            pxIndex (on_resize s) = pxIndex s) \<and>
         (\<forall>t \<in> set (timers s). cb t = ResizeCb \<longrightarrow>
            pending ResizeCb s = [t] \<and>
            (clock s < due t \<longrightarrow> fire (tid t) s = None) \<and>
            (due t \<le> clock s \<longrightarrow>
               fire (tid t) s = Some (resize_timer (remove_timer (tid t) s)) \<and>
               canvasW (resize_timer (remove_timer (tid t) s)) = wrapW s \<and>
               canvasH (resize_timer (remove_timer (tid t) s)) = wrapH s \<and>
               pxIndex (resize_timer (remove_timer (tid t) s)) = length pxFactorValues - 1 \<and>
               trace (resize_timer (remove_timer (tid t) s)) =
                 trace s @ [Rendered (render_draw (wrapW s) (wrapH s) (imgRatio s)
                              (length pxFactorValues - 1))] \<and>
               pending ResizeCb (resize_timer (remove_timer (tid t) s)) = []))"
proof -
  have i: "inv s"
    using inv_reachable [OF assms] .
  then have ids: "inv_ids s"
    by (simp add: inv_def)
  have ev: "step WindowResize s = Some (on_resize s) \<and>
      pending ResizeCb (on_resize s) = [\<lparr>tid = nextId s, due = clock s + 100, cb = ResizeCb\<rparr>] \<and>
      renders (trace (on_resize s)) = renders (trace s) \<and>
      pxIndex (on_resize s) = pxIndex s"
    if "ResizeListener \<in> set (bindings s)"
    using that pending_resize_on_resize [OF i] by (simp add: on_resize_fields)
  have tm: "pending ResizeCb s = [t] \<and>
      (clock s < due t \<longrightarrow> fire (tid t) s = None) \<and>
      (due t \<le> clock s \<longrightarrow>
         fire (tid t) s = Some (resize_timer (remove_timer (tid t) s)) \<and>
         canvasW (resize_timer (remove_timer (tid t) s)) = wrapW s \<and>
         canvasH (resize_timer (remove_timer (tid t) s)) = wrapH s \<and>
         pxIndex (resize_timer (remove_timer (tid t) s)) = length pxFactorValues - 1 \<and>
         trace (resize_timer (remove_timer (tid t) s)) =
           trace s @ [Rendered (render_draw (wrapW s) (wrapH s) (imgRatio s)
                        (length pxFactorValues - 1))] \<and>
         pending ResizeCb (resize_timer (remove_timer (tid t) s)) = [])"
    if t: "t \<in> set (timers s)" and c: "cb t = ResizeCb" for t
  proof -
    have "pending ResizeCb (resize_timer (remove_timer (tid t) s)) =
        pending ResizeCb (remove_timer (tid t) s)"
      by (simp add: pending_def resize_timer_fields)
    then have "pending ResizeCb (resize_timer (remove_timer (tid t) s)) = []"
      using pending_none_after_remove [OF i t] c by simp
    with fire_pending [OF ids t] c pending_resize_single [OF i t c] show ?thesis
      by (simp add: resize_timer_fields remove_timer_fields)
  qed
  show ?thesis
    using ev tm by blast
qed

theorem resize_debounce_witness:
  "map_option (pending ResizeCb) (run [Load 400 200, WindowResize] (constructor 400 200)) =
     Some [\<lparr>tid = 1, due = 100, cb = ResizeCb\<rparr>] \<and>
   map_option timers
     (run [Load 400 200, WindowResize, Elapse 50, WindowResize, Layout 300 300, Elapse 100]
        (constructor 400 200)) = Some [\<lparr>tid = 2, due = 150, cb = ResizeCb\<rparr>] \<and>
   map_option pxIndex
     (run [Load 400 200, WindowResize, Elapse 50, WindowResize, Layout 300 300, Elapse 100, Fire 2]
        (constructor 400 200)) = Some 4 \<and>
   map_option canvasW
     (run [Load 400 200, WindowResize, Elapse 50, WindowResize, Layout 300 300, Elapse 100, Fire 2]
        (constructor 400 200)) = Some 300"
proof -
  let ?es = "[Load 400 200, WindowResize, Elapse 50, WindowResize, Layout 300 300, Elapse 100]"
  let ?t = "\<lparr>tid = 2, due = 150, cb = ResizeCb\<rparr>"
  have a: "map_option timers (run ?es (constructor 400 200)) = Some [?t]"
    by (simp add: run_defs)
  have "map_option clock (run ?es (constructor 400 200)) = Some 150 \<and>
        map_option wrapW (run ?es (constructor 400 200)) = Some 300"
    by (simp add: run_defs)
  with a obtain s where r: "run ?es (constructor 400 200) = Some s"
    and s: "timers s = [?t]" "clock s = 150" "wrapW s = 300"
    by auto
  have "?t \<in> set (timers s)" "cb ?t = ResizeCb" "due ?t \<le> clock s"
    using s by simp_all
  with resize_debounce [OF r] s(3)
  have f: "fire (tid ?t) s = Some (resize_timer (remove_timer (tid ?t) s))"
    and p: "pxIndex (resize_timer (remove_timer (tid ?t) s)) = length pxFactorValues - 1"
    and w: "canvasW (resize_timer (remove_timer (tid ?t) s)) = 300"
    by metis+
  have e: "[Load 400 200, WindowResize, Elapse 50, WindowResize, Layout 300 300, Elapse 100, Fire 2] =
      ?es @ [Fire 2]"
    by simp
  have "run [Load 400 200, WindowResize, Elapse 50, WindowResize, Layout 300 300, Elapse 100, Fire 2]
      (constructor 400 200) = Some (resize_timer (remove_timer 2 s))"
    unfolding e run_append r using f by simp
  with p w a have fired:
    "map_option timers
       (run [Load 400 200, WindowResize, Elapse 50, WindowResize, Layout 300 300, Elapse 100]
          (constructor 400 200)) = Some [\<lparr>tid = 2, due = 150, cb = ResizeCb\<rparr>] \<and>
     map_option pxIndex
       (run [Load 400 200, WindowResize, Elapse 50, WindowResize, Layout 300 300, Elapse 100, Fire 2]
          (constructor 400 200)) = Some 4 \<and>
     map_option canvasW
       (run [Load 400 200, WindowResize, Elapse 50, WindowResize, Layout 300 300, Elapse 100, Fire 2]
          (constructor 400 200)) = Some 300"
    by (simp add: length_pxFactorValues)
  have "map_option bindings (run [Load 400 200] (constructor 400 200)) =
        Some [ResizeListener, EnterTrigger, BottomTrigger] \<and>
      map_option nextId (run [Load 400 200] (constructor 400 200)) = Some 1 \<and>
      map_option clock (run [Load 400 200] (constructor 400 200)) = Some 0"
    by (simp add: run_defs)
  then obtain s0 where r0: "run [Load 400 200] (constructor 400 200) = Some s0"
    and s0: "bindings s0 = [ResizeListener, EnterTrigger, BottomTrigger]" "nextId s0 = 1"
      "clock s0 = 0"
    by auto
  have "ResizeListener \<in> set (bindings s0)"
    using s0 by simp
  with resize_debounce [OF r0]
  have f0: "step WindowResize s0 = Some (on_resize s0)"
    and p0: "pending ResizeCb (on_resize s0) =
      [\<lparr>tid = nextId s0, due = clock s0 + 100, cb = ResizeCb\<rparr>]"
    by blast+
  have e0: "[Load 400 200, WindowResize] = [Load 400 200] @ [WindowResize]"
    by simp
  have "run [Load 400 200, WindowResize] (constructor 400 200) = Some (on_resize s0)"
    unfolding e0 run_append r0 using f0 by simp
  with p0 s0 have "map_option (pending ResizeCb)
      (run [Load 400 200, WindowResize] (constructor 400 200)) =
      Some [\<lparr>tid = 1, due = 100, cb = ResizeCb\<rparr>]"
    by simp
  with fired show ?thesis
    by blast
qed

text \<open>
  C8, as the code has it. In every reachable state, every timer that was cancelled had
  been armed as a resize timer, a \<open>resize\<close> event leaves the pending step timers as they
  are, and a pending step timer \<open>t\<close> stays pending through every event but its own
  firing: step timers are never cancelled. If \<open>t\<close> is pending when the resize timer
  fires, it is still pending afterwards; as long as it has not fired, \<open>pxIndex\<close> stays at
  the last index and \<open>t\<close> fires as soon as it is due. Whenever it fires, it renders
  nothing: it reads the shared \<open>pxIndex\<close>, which the resize left at the last index,
  increments it to the sequence length, fails the guard of \<open>animatePixels\<close>, and arms no
  further timer.
\<close>

theorem pending_step_timer_renders_nothing:
  assumes "run es (constructor cw ch) = Some s"
  shows "(\<forall>i \<in> set (cancelled (trace s)).
            \<exists>u \<in> set (armed (trace s)). tid u = i \<and> cb u = ResizeCb) \<and>
         pending StepCb (on_resize s) = pending StepCb s \<and>
         (t \<in> set (timers s) \<and> cb t = StepCb \<and> step e s = Some sn \<and> e \<noteq> Fire (tid t) \<longrightarrow>
            t \<in> set (timers sn)) \<and>
         (t \<in> set (timers s) \<and> cb t = StepCb \<and> r \<in> set (timers s) \<and> cb r = ResizeCb \<and>
          fire (tid r) s = Some sr \<and> run es' sr = Some sl \<longrightarrow>
            t \<in> set (timers sr) \<and> pxIndex sr = length pxFactorValues - 1 \<and>
            (Fire (tid t) \<notin> set es' \<longrightarrow>
               t \<in> set (timers sl) \<and> pxIndex sl = length pxFactorValues - 1 \<and>
               fire (tid t) sl =
                 (if clock sl < due t then None
                  else Some (step_timer (remove_timer (tid t) sl)))) \<and>
            (fire (tid t) sl = Some sf \<longrightarrow>
               trace sf = trace sl \<and> pxIndex sf = length pxFactorValues \<and>
               pending StepCb sf = []))"
proof -
  have i: "inv s"
    using inv_reachable [OF assms] .
  then have ids: "inv_ids s"
    by (simp add: inv_def)
  have can: "\<forall>i \<in> set (cancelled (trace s)).
      \<exists>u \<in> set (armed (trace s)). tid u = i \<and> cb u = ResizeCb"
    using inv_cancel_reachable [OF assms] unfolding inv_cancel_def by blast
  have kept: "t \<in> set (timers sn)"
    if "t \<in> set (timers s) \<and> cb t = StepCb \<and> step e s = Some sn \<and> e \<noteq> Fire (tid t)"
    using that step_timer_kept [OF i, of t e sn] by blast
  have main: "t \<in> set (timers sr) \<and> pxIndex sr = length pxFactorValues - 1 \<and>
      (Fire (tid t) \<notin> set es' \<longrightarrow>
         t \<in> set (timers sl) \<and> pxIndex sl = length pxFactorValues - 1 \<and>
         fire (tid t) sl =
           (if clock sl < due t then None
            else Some (step_timer (remove_timer (tid t) sl)))) \<and>
      (fire (tid t) sl = Some sf \<longrightarrow>
         trace sf = trace sl \<and> pxIndex sf = length pxFactorValues \<and>
         pending StepCb sf = [])"
    if h: "t \<in> set (timers s) \<and> cb t = StepCb \<and> r \<in> set (timers s) \<and> cb r = ResizeCb \<and>
          fire (tid r) s = Some sr \<and> run es' sr = Some sl"
  proof -
    from h have t: "t \<in> set (timers s)" and ct: "cb t = StepCb"
      and r: "r \<in> set (timers s)" and cr: "cb r = ResizeCb"
      and fr: "fire (tid r) s = Some sr" and rn: "run es' sr = Some sl"
      by blast+
    have ne: "tid t \<noteq> tid r"
      using tid_inj [OF ids t r] ct cr by auto
    have sr: "sr = resize_timer (remove_timer (tid r) s)"
      using fire_pending [OF ids r] cr fr by (simp split: if_splits)
    have in1: "t \<in> set (timers sr)"
      using sr t ne by (simp add: resize_timer_fields remove_timer_fields)
    have px1: "pxIndex sr = length pxFactorValues - 1"
      using sr by (simp add: resize_timer_fields)
    have i1: "inv sr"
      using inv_fire [OF i fr] .
    have "tid t < nextId sr"
      using i1 in1 by (simp add: inv_def inv_ids_def)
    moreover have "u = t \<and> pxIndex sr = length pxFactorValues - 1"
      if "u \<in> set (timers sr)" and "tid u = tid t" for u
      using tid_inj [of sr u t] i1 in1 that px1 by (simp add: inv_def)
    ultimately have st1: "stale t sr"
      unfolding stale_def by blast
    have i2: "inv sl"
      using inv_run [OF i1 rn] .
    have st2: "stale t sl"
      using stale_run [OF i1 ct st1 rn] .
    have later: "t \<in> set (timers sl) \<and> pxIndex sl = length pxFactorValues - 1 \<and>
        fire (tid t) sl =
          (if clock sl < due t then None
           else Some (step_timer (remove_timer (tid t) sl)))"
      if nf: "Fire (tid t) \<notin> set es'"
    proof -
      have in2: "t \<in> set (timers sl)"
        using step_timer_kept_run [OF i1 in1 ct rn nf] .
      from staleD [OF st2 in2] have "pxIndex sl = length pxFactorValues - 1"
        by simp
      moreover have "inv_ids sl"
        using i2 by (simp add: inv_def)
      from fire_pending [OF this in2] ct
      have "fire (tid t) sl =
          (if clock sl < due t then None
           else Some (step_timer (remove_timer (tid t) sl)))"
        by simp
      ultimately show ?thesis
        using in2 by blast
    qed
    have fired: "trace sf = trace sl \<and> pxIndex sf = length pxFactorValues \<and>
        pending StepCb sf = []"
      if ff: "fire (tid t) sl = Some sf"
    proof -
      from fire_SomeD [OF ff] obtain u where u: "u \<in> set (timers sl)" "tid u = tid t"
        and sf: "sf = (case cb u of
                         ResizeCb \<Rightarrow> resize_timer (remove_timer (tid t) sl)
                       | StepCb \<Rightarrow> step_timer (remove_timer (tid t) sl))"
        by blast
      from staleD [OF st2 u] have ut: "u = t" and px2: "pxIndex sl = length pxFactorValues - 1"
        by blast+
      have stop: "\<not> pxIndex (remove_timer (tid t) sl) + 1 < length pxFactorValues"
        using px2 by (simp add: remove_timer_fields length_pxFactorValues)
      have sf': "sf = (remove_timer (tid t) sl)\<lparr>pxIndex := pxIndex (remove_timer (tid t) sl) + 1\<rparr>"
        using sf ut ct step_timer_stop [OF stop] by simp
      have "pending StepCb (remove_timer (tid t) sl) = []"
        using pending_none_after_remove [OF i2, of t] u ut ct by simp
      then have "pending StepCb sf = []"
        using sf' by (simp add: pending_def)
      moreover have "trace sf = trace sl" "pxIndex sf = length pxFactorValues"
        using sf' px2 by (simp_all add: remove_timer_fields length_pxFactorValues)
      ultimately show ?thesis by blast
    qed
    show ?thesis
      using in1 px1 later fired by blast
  qed
  show ?thesis
    using can pending_step_on_resize [OF i] kept main by blast
qed

text \<open>
  C8 as stated fails on the interleaving it describes: the resize timer fires at 100 while
  the step timer armed at 50 is pending; that timer fires at 150, the renders stay
  \<open>[0, 0, 4]\<close> and \<open>pxIndex\<close> is 5.
\<close>

theorem step_timer_after_resize:
  "map_option (map d_index \<circ> renders \<circ> trace)
     (run [Load 400 200, WindowResize, Elapse 50, ReachTop, Elapse 50, Fire 1]
        (constructor 400 200)) = Some [0, 0, 4] \<and>
   map_option timers
     (run [Load 400 200, WindowResize, Elapse 50, ReachTop, Elapse 50, Fire 1]
        (constructor 400 200)) = Some [\<lparr>tid = 2, due = 150, cb = StepCb\<rparr>] \<and>
   map_option (map d_index \<circ> renders \<circ> trace)
     (run [Load 400 200, WindowResize, Elapse 50, ReachTop, Elapse 50, Fire 1, Elapse 50, Fire 2]
        (constructor 400 200)) = Some [0, 0, 4] \<and>
   map_option pxIndex
     (run [Load 400 200, WindowResize, Elapse 50, ReachTop, Elapse 50, Fire 1, Elapse 50, Fire 2]
        (constructor 400 200)) = Some 5 \<and>
   map_option timers
     (run [Load 400 200, WindowResize, Elapse 50, ReachTop, Elapse 50, Fire 1, Elapse 50, Fire 2]
        (constructor 400 200)) = Some []"
  by (simp add: run_defs)


theorem pending_step_timer_renders_nothing_witness:
  "map_option timers
     (run [Load 400 200, WindowResize, Elapse 50, ReachTop, Elapse 50] (constructor 400 200)) =
     Some [\<lparr>tid = 1, due = 100, cb = ResizeCb\<rparr>, \<lparr>tid = 2, due = 150, cb = StepCb\<rparr>] \<and>
   map_option (\<lambda>s. \<lparr>tid = 2, due = 150, cb = StepCb\<rparr> \<in> set (timers s))
     (run [Load 400 200, WindowResize, Elapse 50, ReachTop, Elapse 50, Fire 1, Elapse 50]
        (constructor 400 200)) = Some True \<and>
   map_option pxIndex
     (run [Load 400 200, WindowResize, Elapse 50, ReachTop, Elapse 50, Fire 1, Elapse 50, Fire 2]
        (constructor 400 200)) = Some (length pxFactorValues) \<and>
   map_option trace
     (run [Load 400 200, WindowResize, Elapse 50, ReachTop, Elapse 50, Fire 1, Elapse 50, Fire 2]
        (constructor 400 200)) =
   map_option trace
     (run [Load 400 200, WindowResize, Elapse 50, ReachTop, Elapse 50, Fire 1, Elapse 50]
        (constructor 400 200))"
proof -
  let ?c = "constructor 400 200"
  let ?es = "[Load 400 200, WindowResize, Elapse 50, ReachTop, Elapse 50]"
  let ?r = "\<lparr>tid = 1, due = 100, cb = ResizeCb\<rparr>"
  let ?t = "\<lparr>tid = 2, due = 150, cb = StepCb\<rparr>"
  have a: "map_option timers (run ?es ?c) = Some [?r, ?t]"
    by (simp add: run_defs)
  then obtain s where r: "run ?es ?c = Some s" and tm: "timers s = [?r, ?t]"
    by auto
  have e1: "[Load 400 200, WindowResize, Elapse 50, ReachTop, Elapse 50, Fire 1] = ?es @ [Fire 1]"
    and e2: "[Load 400 200, WindowResize, Elapse 50, ReachTop, Elapse 50, Fire 1, Elapse 50] =
      [Load 400 200, WindowResize, Elapse 50, ReachTop, Elapse 50, Fire 1] @ [Elapse 50]"
    and e3: "[Load 400 200, WindowResize, Elapse 50, ReachTop, Elapse 50, Fire 1, Elapse 50, Fire 2] =
      [Load 400 200, WindowResize, Elapse 50, ReachTop, Elapse 50, Fire 1, Elapse 50] @ [Fire 2]"
    by simp_all
  have "run [Load 400 200, WindowResize, Elapse 50, ReachTop, Elapse 50, Fire 1] ?c \<noteq> None"
    by (simp add: run_defs)
  then obtain s1 where r1:
    "run [Load 400 200, WindowResize, Elapse 50, ReachTop, Elapse 50, Fire 1] ?c = Some s1"
    by blast
  have "run [Load 400 200, WindowResize, Elapse 50, ReachTop, Elapse 50, Fire 1, Elapse 50] ?c \<noteq> None"
    by (simp add: run_defs)
  then obtain s2 where r2:
    "run [Load 400 200, WindowResize, Elapse 50, ReachTop, Elapse 50, Fire 1, Elapse 50] ?c = Some s2"
    by blast
  have "run [Load 400 200, WindowResize, Elapse 50, ReachTop, Elapse 50, Fire 1, Elapse 50, Fire 2] ?c
      \<noteq> None"
    by (simp add: run_defs)
  then obtain s3 where r3:
    "run [Load 400 200, WindowResize, Elapse 50, ReachTop, Elapse 50, Fire 1, Elapse 50, Fire 2] ?c =
      Some s3"
    by blast
  have f1: "fire (tid ?r) s = Some s1"
    using r1 unfolding e1 run_append r by (simp split: option.splits)
  have m2: "run [Elapse 50] s1 = Some s2"
    using r2 unfolding e2 run_append r1 by simp
  have f3: "fire (tid ?t) s2 = Some s3"
    using r3 unfolding e3 run_append r2 by (simp split: option.splits)
  have "?t \<in> set (timers s)" "cb ?t = StepCb" "?r \<in> set (timers s)" "cb ?r = ResizeCb"
    using tm by simp_all
  with pending_step_timer_renders_nothing
    [OF r, where t = ?t and r = ?r and sr = s1 and es' = "[Elapse 50]" and sl = s2 and sf = s3]
    f1 m2 f3
  have "Fire (tid ?t) \<notin> set [Elapse 50] \<longrightarrow> ?t \<in> set (timers s2)"
    "trace s3 = trace s2" "pxIndex s3 = length pxFactorValues"
    by blast+
  with a r2 r3 show ?thesis
    by simp
qed

end
